theory Spec2Isabelle
  imports Main "HOL-Library.Word"
begin

unbundle bit_operations_syntax

section \<open>Outcomes of a C function\<close>

text \<open>
  A function of the tracker either returns, or ends the process through \<open>abort()\<close>
  (the macros \<open>REQUIRE\<close>, \<open>ENSURE\<close>, \<open>UNREACHABLE\<close> and \<open>ASSERT_INITIALIZED\<close> of
  \<open>tracking/invariants.h\<close>, and a trapping division by zero), or waits on the condition
  variable of the barrier for another thread (\<open>Blocked\<close>, in the view of one thread), or
  runs a loop forever (\<open>Diverged\<close>), or does what C leaves undefined (\<open>Undefined\<close>:
  here, reading a string that has been freed).
\<close>

datatype 'a outcome = Returned 'a | Aborted | Blocked | Diverged | Undefined

definition obind :: "'a outcome \<Rightarrow> ('a \<Rightarrow> 'b outcome) \<Rightarrow> 'b outcome" where
  "obind m f = (case m of Returned x \<Rightarrow> f x | Aborted \<Rightarrow> Aborted
                | Blocked \<Rightarrow> Blocked | Diverged \<Rightarrow> Diverged | Undefined \<Rightarrow> Undefined)"

definition of_loop :: "'a outcome option \<Rightarrow> 'a outcome" where
  "of_loop r = (case r of None \<Rightarrow> Diverged | Some x \<Rightarrow> x)"

section \<open>Stop barrier (barrier.c), as one thread sees it\<close>

text \<open>
  The fields of \<open>g_barrier\<close> and the thread-local \<open>tl_callback_depth\<close> of the calling
  thread. The mutex and the condition variable carry no data; their initialisation can fail,
  which \<open>barrier_init\<close> takes as two booleans.
\<close>

record barrier_state =
  active_callbacks :: int
  stopping :: bool
  initialized :: bool
  tl_callback_depth :: int

datatype StopResult = STOP_OK | STOP_FROM_CALLBACK

definition barrier_zero :: barrier_state where
  "barrier_zero = \<lparr>active_callbacks = 0, stopping = False, initialized = False,
                    tl_callback_depth = 0\<rparr>"

definition barrier_init :: "bool \<Rightarrow> bool \<Rightarrow> barrier_state \<Rightarrow> barrier_state outcome" where
  "barrier_init mutex_ok cond_ok b =
     (if initialized b then Returned b
      else if \<not> mutex_ok then Aborted
      else if \<not> cond_ok then Aborted
      else Returned (b\<lparr>active_callbacks := 0, stopping := False, initialized := True\<rparr>))"

definition barrier_destroy :: "barrier_state \<Rightarrow> barrier_state" where
  "barrier_destroy b = (if \<not> initialized b then b else b\<lparr>initialized := False\<rparr>)"

definition barrier_try_enter :: "barrier_state \<Rightarrow> bool \<times> barrier_state" where
  "barrier_try_enter b =
     (if \<not> initialized b then (False, b)
      else if stopping b then (False, b)
      else (let b1 = b\<lparr>active_callbacks := active_callbacks b + 1\<rparr> in
            if stopping b1 then (False, b1\<lparr>active_callbacks := active_callbacks b1 - 1\<rparr>)
            else (True, b1\<lparr>tl_callback_depth := tl_callback_depth b1 + 1\<rparr>)))"

definition barrier_leave :: "barrier_state \<Rightarrow> barrier_state outcome" where
  "barrier_leave b =
     (if \<not> initialized b then Returned b
      else if \<not> (tl_callback_depth b > 0) then Aborted
      else Returned (b\<lparr>tl_callback_depth := tl_callback_depth b - 1,
                       active_callbacks := active_callbacks b - 1\<rparr>))"

text \<open>
  \<open>barrier_stop\<close>: the loop \<open>while (active_callbacks > 0) pthread_cond_wait(...)\<close> can only
  be left through another thread's \<open>barrier_leave\<close>; in the view of one thread the call
  is \<open>Blocked\<close> when it reaches the wait with the counter above zero.
\<close>

definition barrier_stop :: "barrier_state \<Rightarrow> (StopResult \<times> barrier_state) outcome" where
  "barrier_stop b =
     (if tl_callback_depth b > 0 then Returned (STOP_FROM_CALLBACK, b)
      else if \<not> initialized b then Returned (STOP_OK, b)
      else if stopping b then Returned (STOP_OK, b)
      else (let b1 = b\<lparr>stopping := True\<rparr> in
            if active_callbacks b1 > 0 then Blocked
            else Returned (STOP_OK, b1)))"

definition barrier_is_stopping :: "barrier_state \<Rightarrow> bool" where
  "barrier_is_stopping b = (if \<not> initialized b then False else stopping b)"

definition barrier_active_count :: "barrier_state \<Rightarrow> int" where
  "barrier_active_count b = (if \<not> initialized b then 0 else active_callbacks b)"

definition barrier_in_callback :: "barrier_state \<Rightarrow> bool" where
  "barrier_in_callback b = (tl_callback_depth b > 0)"

section \<open>String interning (interning.c)\<close>

text \<open>
  A C string is the byte sequence before its terminator, here a \<open>string\<close>. The array
  \<open>strings\<close> is modelled by the list of its \<open>strings_count\<close> live cells, each cell by the
  content of the copy \<open>strdup\<close> made; the pointer to the copy in cell \<open>i\<close>, which is the
  handle \<open>string_intern\<close> returns, is modelled by the index \<open>i\<close>: the copies are live
  together until \<open>string_table_destroy\<close>, so two of them have the same address only if
  they are the same cell. The null pointer is \<open>None\<close>. \<open>buckets\<close> is the whole array of
  \<open>buckets_capacity\<close> cells. Values of type \<open>size_t\<close> are natural numbers: no
  computation of the source on them wraps while the capacities are below \<open>2^61\<close> (a
  capacity is multiplied by the 8 bytes of a cell for \<open>malloc\<close>), and the properties
  proved of the table are for sizes below \<open>2^51\<close>.
\<close>

record StringTable =
  strings :: "string list"
  strings_capacity :: nat
  buckets :: "nat list"
  buckets_capacity :: nat
  table_initialized :: bool

definition strings_count :: "StringTable \<Rightarrow> nat" where
  "strings_count T = length (strings T)"

definition SIZE_MAX :: nat where
  "SIZE_MAX = 2 ^ 64 - 1"

definition STRING_TABLE_EMPTY :: nat where
  "STRING_TABLE_EMPTY = SIZE_MAX - 1"

definition STRING_TABLE_INITIAL_CAPACITY :: nat where
  "STRING_TABLE_INITIAL_CAPACITY = 1024"

definition table_zero :: StringTable where
  "table_zero = \<lparr>strings = [], strings_capacity = 0, buckets = [], buckets_capacity = 0,
                  table_initialized = False\<rparr>"

definition FNV_OFFSET :: "64 word" where
  "FNV_OFFSET = 14695981039346656037"

definition FNV_PRIME :: "64 word" where
  "FNV_PRIME = 1099511628211"

fun fnv1a_loop :: "64 word \<Rightarrow> string \<Rightarrow> 64 word" where
  "fnv1a_loop hash [] = hash"
| "fnv1a_loop hash (c # s) = fnv1a_loop ((hash XOR of_char c) * FNV_PRIME) s"

definition fnv1a_hash :: "string \<Rightarrow> 64 word" where
  "fnv1a_hash s = fnv1a_loop FNV_OFFSET s"

text \<open>
  The do-while loop of \<open>find_bucket\<close>; \<open>None\<close> is a loop that never ends, and
  \<open>Aborted\<close> is \<open>UNREACHABLE("hash table full")\<close>.
\<close>

partial_function (option) find_bucket_loop ::
  "StringTable \<Rightarrow> string \<Rightarrow> nat \<Rightarrow> nat \<Rightarrow> (nat \<times> bool) outcome option" where
  "find_bucket_loop T s start idx =
     (let entry = buckets T ! idx in
      if entry = STRING_TABLE_EMPTY then Some (Returned (idx, False))
      else if strings T ! entry = s then Some (Returned (idx, True))
      else (let idx' = (idx + 1) mod buckets_capacity T in
            if idx' \<noteq> start then find_bucket_loop T s start idx'
            else Some Aborted))"

text \<open>\<open>hash % buckets_capacity\<close> traps when the capacity is zero.\<close>

definition find_bucket :: "StringTable \<Rightarrow> string \<Rightarrow> 64 word \<Rightarrow> (nat \<times> bool) outcome" where
  "find_bucket T s hash =
     (if buckets_capacity T = 0 then Aborted
      else (let idx = unat hash mod buckets_capacity T in
            of_loop (find_bucket_loop T s idx idx)))"

text \<open>
  The rehash loop of \<open>resize_buckets\<close> over the cells of the old array. The value of
  \<open>found\<close> is not looked at: the cell is written in both cases.
\<close>

fun rehash :: "nat list \<Rightarrow> StringTable \<Rightarrow> StringTable outcome" where
  "rehash [] T = Returned T"
| "rehash (entry # rest) T =
     (if entry \<noteq> STRING_TABLE_EMPTY then
        (let s = strings T ! entry; hash = fnv1a_hash s in
         obind (find_bucket T s hash) (\<lambda>(bucket, found).
           rehash rest (T\<lparr>buckets := (buckets T)[bucket := entry]\<rparr>)))
      else rehash rest T)"

definition resize_buckets :: "bool \<Rightarrow> StringTable \<Rightarrow> StringTable outcome" where
  "resize_buckets malloc_ok T =
     (let old_capacity = buckets_capacity T;
          new_capacity = old_capacity * 2 in
      if \<not> malloc_ok then Aborted
      else (let new_buckets = replicate new_capacity STRING_TABLE_EMPTY;
                old_buckets = buckets T;
                T1 = T\<lparr>buckets := new_buckets, buckets_capacity := new_capacity\<rparr>
            in rehash (take old_capacity old_buckets) T1))"

definition ensure_strings_capacity :: "bool \<Rightarrow> StringTable \<Rightarrow> StringTable outcome" where
  "ensure_strings_capacity realloc_ok T =
     (if strings_count T < strings_capacity T then Returned T
      else (let new_capacity = strings_capacity T * 2;
                new_capacity = (if new_capacity = 0 then 256 else new_capacity) in
            if \<not> realloc_ok then Aborted
            else Returned (T\<lparr>strings_capacity := new_capacity\<rparr>)))"

text \<open>
  The loop \<open>while (capacity < target) capacity *= 2;\<close> of \<open>string_table_init\<close>
  (rounding the capacity up to a power of two) and of \<open>ensure_events_capacity\<close>;
  \<open>None\<close> is a loop that never ends.
\<close>

partial_function (option) double_until :: "nat \<Rightarrow> nat \<Rightarrow> nat option" where
  "double_until capacity target =
     (if capacity < target then double_until (capacity * 2) target
      else Some capacity)"

text \<open>The three allocations of \<open>string_table_init\<close> and of \<open>string_intern\<close> can fail.\<close>

record init_oracle =
  buckets_malloc_ok :: bool
  strings_malloc_ok :: bool
  mutex_init_ok :: bool

definition string_table_init :: "init_oracle \<Rightarrow> nat \<Rightarrow> StringTable \<Rightarrow> StringTable outcome" where
  "string_table_init a initial_capacity T =
     (if table_initialized T then Returned T
      else (let initial_capacity =
                  (if initial_capacity = 0 then STRING_TABLE_INITIAL_CAPACITY
                   else initial_capacity) in
            case double_until 1 initial_capacity of
              None \<Rightarrow> Diverged
            | Some capacity \<Rightarrow>
                if \<not> buckets_malloc_ok a then Aborted
                else if \<not> strings_malloc_ok a then Aborted
                else if \<not> mutex_init_ok a then Aborted
                else Returned (T\<lparr>buckets := replicate capacity STRING_TABLE_EMPTY,
                                  buckets_capacity := capacity,
                                  strings_capacity := 256,
                                  strings := [],
                                  table_initialized := True\<rparr>)))"

definition string_table_destroy :: "StringTable \<Rightarrow> StringTable" where
  "string_table_destroy T =
     (if \<not> table_initialized T then T
      else T\<lparr>strings := [], strings_capacity := 0, buckets := [], buckets_capacity := 0,
              table_initialized := False\<rparr>)"

record intern_oracle =
  resize_malloc_ok :: bool
  strings_realloc_ok :: bool
  strdup_ok :: bool

text \<open>
  The load factor \<open>(double)(strings_count + 1) / (double)buckets_capacity > 0.75\<close> is
  compared exactly: the conversions and the quotient of two sizes below \<open>2^51\<close> are
  far enough from \<open>0.75\<close>, unless equal to it, for the rounding not to change the
  comparison.
\<close>

definition load_exceeded :: "StringTable \<Rightarrow> bool" where
  "load_exceeded T = (4 * (strings_count T + 1) > 3 * buckets_capacity T)"

text \<open>
  The end of \<open>string_intern\<close>, for a string that was not found: make room in the array of
  strings, copy the string, store the copy in the next cell and its index in the bucket.
\<close>

definition store_string ::
  "intern_oracle \<Rightarrow> string \<Rightarrow> nat \<Rightarrow> StringTable \<Rightarrow> (nat option \<times> StringTable) outcome" where
  "store_string a s bucket T =
     obind (ensure_strings_capacity (strings_realloc_ok a) T) (\<lambda>T3.
       if \<not> strdup_ok a then Aborted
       else (let string_idx = strings_count T3;
                 T4 = T3\<lparr>strings := strings T3 @ [s]\<rparr>;
                 T5 = T4\<lparr>buckets := (buckets T4)[bucket := string_idx]\<rparr>
             in Returned (Some string_idx, T5)))"

definition string_intern ::
  "intern_oracle \<Rightarrow> string option \<Rightarrow> StringTable \<Rightarrow> (nat option \<times> StringTable) outcome" where
  "string_intern a sp T =
     (case sp of
        None \<Rightarrow> Returned (None, T)
      | Some s \<Rightarrow>
          if \<not> table_initialized T then Aborted
          else (let hash = fnv1a_hash s in
            obind (find_bucket T s hash) (\<lambda>(bucket, found).
              if found then Returned (Some (buckets T ! bucket), T)
              else
                obind (if load_exceeded T then
                         obind (resize_buckets (resize_malloc_ok a) T) (\<lambda>T1.
                           obind (find_bucket T1 s hash) (\<lambda>(bucket1, found1).
                             if found1 then Aborted else Returned (bucket1, T1)))
                       else Returned (bucket, T))
                  (\<lambda>(bucket2, T2). store_string a s bucket2 T2))))"

definition string_table_count :: "StringTable \<Rightarrow> nat" where
  "string_table_count T = strings_count T"

definition string_table_is_initialized :: "StringTable \<Rightarrow> bool" where
  "string_table_is_initialized T = table_initialized T"

definition string_table_lookup :: "nat \<Rightarrow> StringTable \<Rightarrow> nat outcome" where
  "string_table_lookup idx T =
     (if \<not> table_initialized T then Aborted
      else if \<not> idx < strings_count T then Aborted
      else Returned idx)"

section \<open>Event callback (callback.c)\<close>

record RawCallEvent =
  callee_file :: "nat option"
  callee_line :: int
  callee_func :: "nat option"
  caller_file :: "nat option"
  caller_line :: int
  caller_func :: "nat option"
  call_thread_id :: nat
  call_coro_id :: nat
  call_timestamp_ns :: nat

record RawReturnEvent =
  ret_file :: "nat option"
  ret_line :: int
  ret_func :: "nat option"
  ret_thread_id :: nat
  ret_timestamp_ns :: nat
  has_exception :: bool

record RawCreateEvent =
  create_obj_id :: nat
  create_type_name :: "nat option"
  create_file :: "nat option"
  create_line :: int
  create_func :: "nat option"
  create_thread_id :: nat
  create_timestamp_ns :: nat

record RawDestroyEvent =
  destroy_obj_id :: nat
  destroy_type_name :: "nat option"
  destroy_thread_id :: nat
  destroy_timestamp_ns :: nat

datatype RawEvent =
  RawCall RawCallEvent
| RawReturn RawReturnEvent
| RawCreate RawCreateEvent
| RawDestroy RawDestroyEvent

text \<open>
  The globals of callback.c with the two modules it initialises. A function pointer and a
  \<open>void*\<close> are addresses (\<open>None\<close> is \<open>nullptr\<close>); what the function at an address does
  when called is given by an environment of type \<open>callbacks\<close>: it may change the state
  through the API, and it may abort.
\<close>

record session =
  g_barrier :: barrier_state
  g_table :: StringTable
  g_callback :: "nat option"
  g_user_data :: "nat option"
  g_active :: bool

type_synonym callbacks = "nat \<Rightarrow> RawEvent \<Rightarrow> nat option \<Rightarrow> session \<Rightarrow> session outcome"

definition session_zero :: session where
  "session_zero = \<lparr>g_barrier = barrier_zero, g_table = table_zero, g_callback = None,
                    g_user_data = None, g_active = False\<rparr>"

definition dispatch_wrapper :: "callbacks \<Rightarrow> RawEvent option \<Rightarrow> session \<Rightarrow> session outcome" where
  "dispatch_wrapper env ctx_event s =
     (case (g_callback s, ctx_event) of
        (Some cb, Some event) \<Rightarrow> env cb event (g_user_data s) s
      | _ \<Rightarrow> Returned s)"

definition barrier_dispatch ::
  "(session \<Rightarrow> session outcome) option \<Rightarrow> session \<Rightarrow> session outcome" where
  "barrier_dispatch cb s =
     (case cb of
        None \<Rightarrow> Returned s
      | Some f \<Rightarrow>
          (let (entered, b) = barrier_try_enter (g_barrier s) in
           if entered then
             obind (f (s\<lparr>g_barrier := b\<rparr>)) (\<lambda>s1.
               obind (barrier_leave (g_barrier s1)) (\<lambda>b1.
                 Returned (s1\<lparr>g_barrier := b1\<rparr>)))
           else Returned (s\<lparr>g_barrier := b\<rparr>)))"

record start_oracle =
  table_oracle :: init_oracle
  barrier_mutex_ok :: bool
  barrier_cond_ok :: bool

definition tracking_start ::
  "start_oracle \<Rightarrow> nat option \<Rightarrow> nat option \<Rightarrow> session \<Rightarrow> session outcome" where
  "tracking_start a cb user_data s =
     obind (string_table_init (table_oracle a) 0 (g_table s)) (\<lambda>T.
       obind (barrier_init (barrier_mutex_ok a) (barrier_cond_ok a) (g_barrier s)) (\<lambda>b.
         Returned (s\<lparr>g_table := T, g_barrier := b, g_callback := cb,
                     g_user_data := user_data, g_active := True\<rparr>)))"

definition tracking_stop :: "session \<Rightarrow> (StopResult \<times> session) outcome" where
  "tracking_stop s =
     (if \<not> g_active s then Returned (STOP_OK, s)
      else
        obind (barrier_stop (g_barrier s)) (\<lambda>(result, b).
          if result \<noteq> STOP_OK then Returned (result, s\<lparr>g_barrier := b\<rparr>)
          else Returned (STOP_OK,
                 s\<lparr>g_barrier := barrier_destroy b,
                   g_callback := None, g_user_data := None, g_active := False,
                   g_table := string_table_destroy (g_table s)\<rparr>)))"

definition tracking_is_active :: "session \<Rightarrow> bool" where
  "tracking_is_active s = g_active s"

definition tracking_dispatch :: "callbacks \<Rightarrow> RawEvent option \<Rightarrow> session \<Rightarrow> session outcome" where
  "tracking_dispatch env event s =
     (case event of
        None \<Rightarrow> Returned s
      | Some e \<Rightarrow>
          if \<not> g_active s then Returned s
          else barrier_dispatch (Some (dispatch_wrapper env (Some e))) s)"

section \<open>Frame stack (frame.c)\<close>

text \<open>
  The thread-local array \<open>tl_stack\<close> with all its \<open>tl_capacity\<close> cells. The cells that
  \<open>realloc\<close> adds hold no defined value in C; they are written before they are read, and
  the model fills them with \<open>FRAME_NO_CALLER\<close>. File and function are interned handles.
\<close>

record StackFrame =
  sf_file :: "nat option"
  sf_line :: int
  sf_func :: "nat option"

definition FRAME_NO_CALLER :: StackFrame where
  "FRAME_NO_CALLER = \<lparr>sf_file = None, sf_line = 0, sf_func = None\<rparr>"

definition FRAME_STACK_INITIAL_CAPACITY :: nat where
  "FRAME_STACK_INITIAL_CAPACITY = 64"

definition FRAME_STACK_GROWTH_FACTOR :: nat where
  "FRAME_STACK_GROWTH_FACTOR = 2"

record frame_stack =
  tl_stack :: "StackFrame list"
  tl_depth :: nat
  tl_capacity :: nat

definition frame_stack_zero :: frame_stack where
  "frame_stack_zero = \<lparr>tl_stack = [], tl_depth = 0, tl_capacity = 0\<rparr>"

definition ensure_capacity :: "bool \<Rightarrow> frame_stack \<Rightarrow> frame_stack outcome" where
  "ensure_capacity realloc_ok fs =
     (if tl_depth fs < tl_capacity fs then Returned fs
      else (let new_capacity =
                  (if tl_capacity fs = 0 then FRAME_STACK_INITIAL_CAPACITY
                   else tl_capacity fs * FRAME_STACK_GROWTH_FACTOR) in
            if \<not> realloc_ok then Aborted
            else Returned (fs\<lparr>tl_stack := tl_stack fs @
                                 replicate (new_capacity - tl_capacity fs) FRAME_NO_CALLER,
                               tl_capacity := new_capacity\<rparr>)))"

definition frame_stack_push :: "bool \<Rightarrow> StackFrame option \<Rightarrow> frame_stack \<Rightarrow> frame_stack outcome" where
  "frame_stack_push realloc_ok info fs =
     (case info of
        None \<Rightarrow> Aborted
      | Some f \<Rightarrow>
          obind (ensure_capacity realloc_ok fs) (\<lambda>fs1.
            Returned (fs1\<lparr>tl_stack := (tl_stack fs1)[tl_depth fs1 := f],
                          tl_depth := tl_depth fs1 + 1\<rparr>)))"

definition frame_stack_pop :: "frame_stack \<Rightarrow> frame_stack outcome" where
  "frame_stack_pop fs =
     (if \<not> tl_depth fs > 0 then Aborted
      else (let d = tl_depth fs - 1 in
            Returned (fs\<lparr>tl_depth := d, tl_stack := (tl_stack fs)[d := FRAME_NO_CALLER]\<rparr>)))"

definition frame_stack_caller :: "frame_stack \<Rightarrow> StackFrame option" where
  "frame_stack_caller fs =
     (if tl_depth fs < 2 then None else Some (tl_stack fs ! (tl_depth fs - 2)))"

definition frame_stack_depth :: "frame_stack \<Rightarrow> nat" where
  "frame_stack_depth fs = tl_depth fs"

definition frame_stack_clear :: "frame_stack \<Rightarrow> frame_stack" where
  "frame_stack_clear fs = fs\<lparr>tl_depth := 0\<rparr>"

definition frame_stack_destroy :: "frame_stack \<Rightarrow> frame_stack" where
  "frame_stack_destroy fs = fs\<lparr>tl_stack := [], tl_depth := 0, tl_capacity := 0\<rparr>"

text \<open>What a worker observes: a call pushes the callee's frame, a return pops it.\<close>

datatype frame_op = Push bool "StackFrame option" | Pop

fun frame_stack_apply :: "frame_op \<Rightarrow> frame_stack \<Rightarrow> frame_stack outcome" where
  "frame_stack_apply (Push realloc_ok info) fs = frame_stack_push realloc_ok info fs"
| "frame_stack_apply Pop fs = frame_stack_pop fs"

fun frame_stack_run :: "frame_op list \<Rightarrow> frame_stack \<Rightarrow> frame_stack outcome" where
  "frame_stack_run [] fs = Returned fs"
| "frame_stack_run (x # xs) fs = obind (frame_stack_apply x fs) (frame_stack_run xs)"

section \<open>The tracker (the extension module)\<close>

subsection \<open>Data (tracking/types.h, tracking/constants.h)\<close>



definition MAX_STACK_DEPTH :: int where
  "MAX_STACK_DEPTH = 256"


record FrameInfo =
  fi_file :: "string option"
  fi_line :: int
  fi_func :: "string option"

definition frame_info_zero :: FrameInfo where
  "frame_info_zero = \<lparr>fi_file = None, fi_line = 0, fi_func = None\<rparr>"

record CreationInfo =
  ci_location :: FrameInfo
  ci_traceback :: "FrameInfo list"
  ci_traceback_depth :: int
  ci_type_name_ref :: "string option"


record ArgInfo =
  name_owned :: "string option"
  arg_id :: nat
  type_ref :: "string option"

datatype EventType = EVENT_CALL | EVENT_RETURN | EVENT_CREATE | EVENT_DESTROY

record FieldError =
  err_field :: string
  exc_type :: string
  exc_msg :: string

record Event =
  ev_type :: EventType
  ev_obj_id :: nat
  ev_type_name_ref :: "string option"
  ev_location :: FrameInfo
  ev_caller :: FrameInfo
  ev_args :: "ArgInfo list"
  ev_creation_info :: "CreationInfo option"
  ev_errors :: "FieldError list"



subsection \<open>Filling events (tracking/events.h)\<close>









subsection \<open>Global state\<close>

text \<open>
  The globals of \<^verbatim>\<open>_tracking.c\<close>, the barrier, and the thread-locals of the calling thread.
  The array \<open>events\<close> is modelled by the list of its \<open>events_count\<close> live cells;
  \<open>events_null\<close> holds when the pointer is null. \<open>hooks_installed\<close> stands for the frame
  evaluator and the reference tracer being registered with the interpreter.

  The strings of a \<open>FrameInfo\<close> are modelled by their content. In C they are pointers, and
  the strings of the location of an event are owned by the event: \<open>free_events\<close> frees
  them, and nothing else does. The frame evaluator keeps a shallow copy of the location of
  its CALL event across the evaluation of the body, so the copy points to freed strings
  once \<open>free_events\<close> has released a log that was allocated. \<open>events_freed\<close> counts
  these releases: a location copied when the count was \<open>n\<close> may be read as long as the
  count is \<open>n\<close>.
\<close>

record tracker =
  events :: "Event list"
  events_null :: bool
  events_capacity :: nat
  tracking_active :: int
  obj_creation_map :: "nat \<rightharpoonup> CreationInfo"
  call_stack :: "FrameInfo list"
  stack_depth :: int
  t_barrier :: barrier_state
  hooks_installed :: bool
  events_freed :: nat

definition events_count :: "tracker \<Rightarrow> nat" where
  "events_count t = length (events t)"

definition tracker_zero :: tracker where
  "tracker_zero = \<lparr>events = [], events_null = True, events_capacity = 0, tracking_active = 0,
                    obj_creation_map = Map.empty,
                    call_stack = replicate (nat MAX_STACK_DEPTH) frame_info_zero,
                    stack_depth = 0, t_barrier = barrier_zero, hooks_installed = False,
                    events_freed = 0\<rparr>"




subsection \<open>Event registry\<close>


definition free_events :: "tracker \<Rightarrow> tracker" where
  "free_events t =
     (let t1 = (if \<not> events_null t then t\<lparr>events_freed := events_freed t + 1\<rparr> else t)
      in t1\<lparr>events := [], events_null := True, events_capacity := 0\<rparr>)"


subsection \<open>Frame evaluation hook\<close>



text \<open>The push and the pop of the thread-local \<open>call_stack\<close> in the frame evaluator.\<close>

definition call_stack_push :: "FrameInfo \<Rightarrow> tracker \<Rightarrow> tracker" where
  "call_stack_push location t =
     (if stack_depth t < MAX_STACK_DEPTH then
        t\<lparr>call_stack := (call_stack t)[nat (stack_depth t) := location],
          stack_depth := stack_depth t + 1\<rparr>
      else t)"

definition call_stack_pop :: "tracker \<Rightarrow> tracker" where
  "call_stack_pop t = (if stack_depth t > 0 then t\<lparr>stack_depth := stack_depth t - 1\<rparr> else t)"




subsection \<open>Reference tracer handlers\<close>






subsection \<open>The API of the module\<close>

text \<open>
  What a function of the module returns to the interpreter: \<open>None\<close>, a \<open>RuntimeError\<close>
  with its message, a null result after an allocation of the interpreter failed, or the
  dictionary with the events (their encoding is not part of the tracker).
\<close>

datatype py_return = PyNone | PyRuntimeError string | PyNoMemory | PyEvents "Event list"

record api_oracle =
  api_mutex_ok :: bool
  api_cond_ok :: bool
  set_tracer_ok :: bool
  dict_new_ok :: bool
  list_new_ok :: bool

definition py_start :: "api_oracle \<Rightarrow> tracker \<Rightarrow> (py_return \<times> tracker) outcome" where
  "py_start a t =
     (if tracking_active t \<noteq> 0 then Returned (PyRuntimeError ''Already started'', t)
      else (let t1 = free_events t;
                t2 = t1\<lparr>obj_creation_map := Map.empty, stack_depth := 0\<rparr> in
            obind (barrier_init (api_mutex_ok a) (api_cond_ok a) (t_barrier t2)) (\<lambda>b.
              (let t3 = t2\<lparr>t_barrier := b\<rparr> in
               if \<not> set_tracer_ok a then
                 Returned (PyRuntimeError ''Failed to set tracer'', t3\<lparr>hooks_installed := False\<rparr>)
               else Returned (PyNone, t3\<lparr>hooks_installed := True, tracking_active := 1\<rparr>)))))"

definition py_stop :: "api_oracle \<Rightarrow> tracker \<Rightarrow> (py_return \<times> tracker) outcome" where
  "py_stop a t =
     (if tracking_active t = 0 then Returned (PyRuntimeError ''Not started'', t)
      else (let t1 = t\<lparr>tracking_active := 0\<rparr> in
            obind (barrier_stop (t_barrier t1)) (\<lambda>(stop_result, b).
              (let t2 = t1\<lparr>t_barrier := b\<rparr> in
               if stop_result = STOP_FROM_CALLBACK then
                 Returned (PyRuntimeError ''Cannot stop() from tracked callback'',
                           t2\<lparr>tracking_active := 1\<rparr>)
               else (let t3 = t2\<lparr>hooks_installed := False\<rparr>;
                         t4 = t3\<lparr>t_barrier := barrier_destroy (t_barrier t3)\<rparr>;
                         cleaned = (free_events t4)\<lparr>obj_creation_map := Map.empty\<rparr> in
                     if \<not> dict_new_ok a then Returned (PyNoMemory, cleaned)
                     else if \<not> list_new_ok a then Returned (PyNoMemory, cleaned)
                     else Returned (PyEvents (events t4), cleaned))))))"

definition py_count :: "tracker \<Rightarrow> nat" where
  "py_count t = events_count t"

definition py_is_active :: "tracker \<Rightarrow> bool" where
  "py_is_active t = (tracking_active t \<noteq> 0)"

section \<open>Runs of operations and sample states\<close>

text \<open>
  The calls and returns a worker observes, as the frame evaluator treats its own
  \<open>call_stack\<close>: a call pushes, a return pops.
\<close>

datatype stack_event = Call FrameInfo | Return

fun call_stack_observe :: "stack_event \<Rightarrow> tracker \<Rightarrow> tracker" where
  "call_stack_observe (Call location) t = call_stack_push location t"
| "call_stack_observe Return t = call_stack_pop t"

fun call_stack_run :: "stack_event list \<Rightarrow> tracker \<Rightarrow> tracker" where
  "call_stack_run [] t = t"
| "call_stack_run (e # es) t = call_stack_run es (call_stack_observe e t)"

text \<open>The number of calls minus the number of returns of a sequence.\<close>

fun op_balance :: "frame_op list \<Rightarrow> int" where
  "op_balance [] = 0"
| "op_balance (Push realloc_ok info # xs) = op_balance xs + 1"
| "op_balance (Pop # xs) = op_balance xs - 1"

fun event_balance :: "stack_event list \<Rightarrow> int" where
  "event_balance [] = 0"
| "event_balance (Call location # es) = event_balance es + 1"
| "event_balance (Return # es) = event_balance es - 1"

text \<open>A push whose allocation succeeds and whose frame is not null.\<close>

fun push_succeeds :: "frame_op \<Rightarrow> bool" where
  "push_succeeds (Push realloc_ok info) = (realloc_ok \<and> info \<noteq> None)"
| "push_succeeds Pop = True"

text \<open>Calls of the barrier by one thread, in sequence.\<close>

datatype barrier_op = OpTryEnter | OpLeave | OpStop | OpDestroy

fun barrier_apply :: "barrier_op \<Rightarrow> barrier_state \<Rightarrow> barrier_state outcome" where
  "barrier_apply OpTryEnter b = Returned (snd (barrier_try_enter b))"
| "barrier_apply OpLeave b = barrier_leave b"
| "barrier_apply OpStop b = obind (barrier_stop b) (\<lambda>(r, b1). Returned b1)"
| "barrier_apply OpDestroy b = Returned (barrier_destroy b)"

fun barrier_run :: "barrier_op list \<Rightarrow> barrier_state \<Rightarrow> barrier_state outcome" where
  "barrier_run [] b = Returned b"
| "barrier_run (x # xs) b = obind (barrier_apply x b) (barrier_run xs)"

text \<open>Oracles under which every allocation succeeds, and some under which one fails.\<close>

definition api_ok :: api_oracle where
  "api_ok = \<lparr>api_mutex_ok = True, api_cond_ok = True, set_tracer_ok = True,
             dict_new_ok = True, list_new_ok = True\<rparr>"




text \<open>The barrier after \<open>barrier_init\<close>, and inside a protected section.\<close>

definition barrier_active :: barrier_state where
  "barrier_active = barrier_zero\<lparr>initialized := True\<rparr>"

definition barrier_entered :: barrier_state where
  "barrier_entered = barrier_active\<lparr>active_callbacks := 1, tl_callback_depth := 1\<rparr>"

text \<open>The tracker after \<open>py_start\<close> on the state the module is loaded with.\<close>

definition tracker_started :: tracker where
  "tracker_started = tracker_zero\<lparr>t_barrier := barrier_active, hooks_installed := True,
                                   tracking_active := 1\<rparr>"




definition tracker_stopped :: tracker where
  "tracker_stopped = tracker_zero\<lparr>t_barrier := barrier_zero\<lparr>stopping := True\<rparr>\<rparr>"

text \<open>
  What holds of the table between two calls. \<open>home\<close> is the bucket at which the probing
  for a string starts; a bucket is \<open>reachable\<close> from a start when probing from there
  gets to it over occupied buckets only; a string is \<open>stored\<close> when some bucket holds
  its index. \<open>index_inv\<close>: occupied buckets hold indices of strings, no two the
  same, each reachable from the home of its string, and the strings differ from each
  other. \<open>table_inv\<close>: moreover every string has its bucket, and the table is not full.
\<close>

definition home :: "StringTable \<Rightarrow> string \<Rightarrow> nat" where
  "home T s = unat (fnv1a_hash s) mod buckets_capacity T"

definition reachable :: "StringTable \<Rightarrow> nat \<Rightarrow> nat \<Rightarrow> bool" where
  "reachable T start i \<longleftrightarrow>
     (\<exists>k<buckets_capacity T. i = (start + k) mod buckets_capacity T
        \<and> (\<forall>j<k. buckets T ! ((start + j) mod buckets_capacity T) \<noteq> STRING_TABLE_EMPTY))"

definition stored :: "StringTable \<Rightarrow> string \<Rightarrow> bool" where
  "stored T s \<longleftrightarrow>
     (\<exists>i<buckets_capacity T. buckets T ! i \<noteq> STRING_TABLE_EMPTY \<and> strings T ! (buckets T ! i) = s)"

definition index_inv :: "StringTable \<Rightarrow> bool" where
  "index_inv T \<longleftrightarrow>
     0 < buckets_capacity T \<and> length (buckets T) = buckets_capacity T
     \<and> distinct (strings T)
     \<and> (\<forall>i<buckets_capacity T. buckets T ! i \<noteq> STRING_TABLE_EMPTY \<longrightarrow>
           buckets T ! i < length (strings T))
     \<and> (\<forall>i<buckets_capacity T. \<forall>j<buckets_capacity T.
           buckets T ! i \<noteq> STRING_TABLE_EMPTY \<and> buckets T ! i = buckets T ! j \<longrightarrow> i = j)
     \<and> (\<forall>i<buckets_capacity T. buckets T ! i \<noteq> STRING_TABLE_EMPTY \<longrightarrow>
           reachable T (home T (strings T ! (buckets T ! i))) i)"

definition occupied :: "StringTable \<Rightarrow> nat" where
  "occupied T = length (filter (\<lambda>e. e \<noteq> STRING_TABLE_EMPTY) (buckets T))"

definition table_inv :: "StringTable \<Rightarrow> bool" where
  "table_inv T \<longleftrightarrow>
     table_initialized T \<and> index_inv T
     \<and> occupied T = strings_count T
     \<and> strings_count T < buckets_capacity T
     \<and> strings_count T \<le> STRING_TABLE_EMPTY
     \<and> (\<forall>e < strings_count T. \<exists>i < buckets_capacity T. buckets T ! i = e)"

text \<open>Calls of \<open>string_intern\<close> in sequence (the mutex serialises them), with the handles.\<close>

fun intern_all ::
  "(intern_oracle \<times> string option) list \<Rightarrow> StringTable \<Rightarrow> (nat option list \<times> StringTable) outcome" where
  "intern_all [] T = Returned ([], T)"
| "intern_all ((a, sp) # xs) T =
     obind (string_intern a sp T) (\<lambda>(h, T1).
       obind (intern_all xs T1) (\<lambda>(hs, T2). Returned (h # hs, T2)))"

text \<open>Oracles for the interning table, and the table after \<open>string_table_init(4)\<close>.\<close>

definition init_ok :: init_oracle where
  "init_ok = \<lparr>buckets_malloc_ok = True, strings_malloc_ok = True, mutex_init_ok = True\<rparr>"

definition intern_ok :: intern_oracle where
  "intern_ok = \<lparr>resize_malloc_ok = True, strings_realloc_ok = True, strdup_ok = True\<rparr>"

definition table_four :: StringTable where
  "table_four = table_zero\<lparr>buckets := replicate 4 STRING_TABLE_EMPTY, buckets_capacity := 4,
                            strings_capacity := 256, table_initialized := True\<rparr>"

text \<open>
  The bound on the two capacities that the growth by doubling keeps, from an initial
  capacity of the buckets of at most \<open>c / 3\<close>.
\<close>

definition sizes_bounded :: "nat \<Rightarrow> StringTable \<Rightarrow> bool" where
  "sizes_bounded c T \<longleftrightarrow>
     3 * buckets_capacity T \<le> max c (8 * strings_count T)
     \<and> strings_capacity T \<le> max 256 (2 * strings_count T)"

text \<open>
  The table after \<open>string_table_init(1)\<close>, an oracle under which every allocation
  fails, and a sequence of calls that makes the table grow twice.
\<close>

definition table_one :: StringTable where
  "table_one = table_zero\<lparr>buckets := replicate 1 STRING_TABLE_EMPTY, buckets_capacity := 1,
                           strings_capacity := 256, table_initialized := True\<rparr>"

definition intern_no_alloc :: intern_oracle where
  "intern_no_alloc = \<lparr>resize_malloc_ok = False, strings_realloc_ok = False, strdup_ok = False\<rparr>"

definition sample_interns :: "(intern_oracle \<times> string option) list" where
  "sample_interns = [(intern_ok, Some ''a''), (intern_ok, Some ''b''), (intern_ok, Some ''a''),
                     (intern_ok, None)]"

declare double_until.simps [code]

declare find_bucket_loop.simps [code]



section \<open>The barrier under threads (the atomics of barrier.c)\<close>

text \<open>
  \<open>barrier.c\<close> reads and writes \<open>stopping\<close> with \<open>memory_order_acquire\<close> and
  \<open>memory_order_release\<close> and updates \<open>active_callbacks\<close> with read-modify-write
  operations of order \<open>memory_order_acq_rel\<close>. The machine below gives these operations
  their C11 meaning. Each of the two atomic objects is the list of the stores made to it, in
  modification order, each store with the view of the thread that made it; a view says, for
  each object, the latest store the thread has observed. An acquire load reads any store
  that is not older than the one the thread has observed and joins the view of that
  store; a release store appends to the list; a read-modify-write reads the last store and
  appends. Every run of this machine is an execution that the C11 memory model allows:
  a load may take its value from any store of the object that does not happen before
  another store the thread has observed, a read-modify-write reads the last store, and
  only operations of order \<open>memory_order_seq_cst\<close> are in one total order that all
  threads agree on.
\<close>

record view =
  seen_stopping :: nat
  seen_active :: nat

definition view_zero :: view where
  "view_zero = \<lparr>seen_stopping = 0, seen_active = 0\<rparr>"

definition view_join :: "view \<Rightarrow> view \<Rightarrow> view" where
  "view_join V W = \<lparr>seen_stopping = max (seen_stopping V) (seen_stopping W),
                    seen_active = max (seen_active V) (seen_active W)\<rparr>"

text \<open>
  The places of a thread inside \<open>barrier_try_enter\<close>, \<open>barrier_leave\<close> and
  \<open>barrier_stop\<close>, named by the line of \<open>barrier.c\<close> whose access to shared state is
  next; \<open>Outside\<close> is a thread that is in none of the three functions.
\<close>

datatype pc = Outside | L105 | L110 | L117 | L118 | L153 | L157
  | L180 | L183 | L184 | L189 | L192 | L193 | L193_wake | L197

datatype api_result = Ret_bool bool | Ret_void | Ret_stop StopResult

text \<open>
  A thread: its place, its \<open>tl_callback_depth\<close>, its view and what its last call
  returned. The process: the two atomic objects, the owner of the mutex and the view left
  by the last unlock, \<open>g_barrier.initialized\<close>, whether a \<open>REQUIRE\<close> has aborted the
  process, and the threads. \<open>active_callbacks\<close> is an \<open>int64_t\<close>, here an integer.
\<close>

record thread =
  th_pc :: pc
  th_depth :: int
  th_view :: view
  th_returned :: "api_result option"

record process =
  g_stopping :: "(bool \<times> view) list"
  g_active_callbacks :: "(int \<times> view) list"
  g_mutex :: "nat option"
  g_mutex_view :: view
  g_initialized :: bool
  g_aborted :: bool
  threads :: "thread list"

datatype api = Api_try_enter | Api_leave | Api_stop

datatype action = Invoke nat api | Advance nat nat

text \<open>The process after \<open>barrier_init\<close>, with \<open>n\<close> threads outside the barrier.\<close>

definition thread_zero :: thread where
  "thread_zero = \<lparr>th_pc = Outside, th_depth = 0, th_view = view_zero, th_returned = None\<rparr>"

definition process_start :: "nat \<Rightarrow> process" where
  "process_start n = \<lparr>g_stopping = [(False, view_zero)], g_active_callbacks = [(0, view_zero)],
      g_mutex = None, g_mutex_view = view_zero, g_initialized = True, g_aborted = False,
      threads = replicate n thread_zero\<rparr>"

definition set_thread :: "nat \<Rightarrow> thread \<Rightarrow> process \<Rightarrow> process" where
  "set_thread i t s = s\<lparr>threads := (threads s)[i := t]\<rparr>"

definition returns :: "api_result \<Rightarrow> thread \<Rightarrow> thread" where
  "returns r t = t\<lparr>th_pc := Outside, th_returned := Some r\<rparr>"

text \<open>
  The start of a call, up to its first access to the atomics or to the mutex: the tests
  of \<open>initialized\<close> and of \<open>tl_callback_depth\<close>. \<open>None\<close> is the \<open>REQUIRE\<close> of
  \<open>barrier_leave\<close> that fails.
\<close>

definition invoke :: "api \<Rightarrow> thread \<Rightarrow> bool \<Rightarrow> thread option" where
  "invoke f t init =
     (case f of
        Api_try_enter \<Rightarrow>
          if \<not> init then Some (returns (Ret_bool False) t)
          else Some (t\<lparr>th_pc := L105, th_returned := None\<rparr>)
      | Api_leave \<Rightarrow>
          if \<not> init then Some (returns Ret_void t)
          else if \<not> (th_depth t > 0) then None
          else Some (t\<lparr>th_pc := L153, th_depth := th_depth t - 1, th_returned := None\<rparr>)
      | Api_stop \<Rightarrow>
          if th_depth t > 0 then Some (returns (Ret_stop STOP_FROM_CALLBACK) t)
          else if \<not> init then Some (returns (Ret_stop STOP_OK) t)
          else Some (t\<lparr>th_pc := L180, th_returned := None\<rparr>))"

text \<open>
  The atomic operations. \<open>c\<close> is the place, in modification order, of the store that a
  load reads.
\<close>

definition load_acquire :: "nat \<Rightarrow> nat \<Rightarrow> ('a \<times> view) list \<Rightarrow> view \<Rightarrow> ('a \<times> view) option" where
  "load_acquire seen c mo V =
     (if seen \<le> c \<and> c < length mo then Some (fst (mo ! c), view_join V (snd (mo ! c))) else None)"

definition load_stopping :: "nat \<Rightarrow> thread \<Rightarrow> process \<Rightarrow> (bool \<times> thread) option" where
  "load_stopping c t s =
     (case load_acquire (seen_stopping (th_view t)) c (g_stopping s) (th_view t) of
        None \<Rightarrow> None
      | Some (v, V) \<Rightarrow> Some (v, t\<lparr>th_view := V\<lparr>seen_stopping := max c (seen_stopping V)\<rparr>\<rparr>))"

definition load_active :: "nat \<Rightarrow> thread \<Rightarrow> process \<Rightarrow> (int \<times> thread) option" where
  "load_active c t s =
     (case load_acquire (seen_active (th_view t)) c (g_active_callbacks s) (th_view t) of
        None \<Rightarrow> None
      | Some (v, V) \<Rightarrow> Some (v, t\<lparr>th_view := V\<lparr>seen_active := max c (seen_active V)\<rparr>\<rparr>))"

definition store_stopping :: "bool \<Rightarrow> thread \<Rightarrow> process \<Rightarrow> thread \<times> process" where
  "store_stopping v t s =
     (let V = (th_view t)\<lparr>seen_stopping := length (g_stopping s)\<rparr>
      in (t\<lparr>th_view := V\<rparr>, s\<lparr>g_stopping := g_stopping s @ [(v, V)]\<rparr>))"

definition fetch_add_active :: "int \<Rightarrow> thread \<Rightarrow> process \<Rightarrow> int \<times> thread \<times> process" where
  "fetch_add_active d t s =
     (let mo = g_active_callbacks s;
          prev = fst (last mo);
          V = (view_join (th_view t) (snd (last mo)))\<lparr>seen_active := length mo\<rparr>
      in (prev, t\<lparr>th_view := V\<rparr>, s\<lparr>g_active_callbacks := mo @ [(prev + d, V)]\<rparr>))"

text \<open>
  The mutex orders the threads that lock it: locking joins the view left by the last
  unlock. Producers never lock it.
\<close>

definition mutex_lock :: "nat \<Rightarrow> thread \<Rightarrow> process \<Rightarrow> (thread \<times> process) option" where
  "mutex_lock i t s =
     (if g_mutex s = None
      then Some (t\<lparr>th_view := view_join (th_view t) (g_mutex_view s)\<rparr>, s\<lparr>g_mutex := Some i\<rparr>)
      else None)"

definition mutex_unlock :: "thread \<Rightarrow> process \<Rightarrow> process" where
  "mutex_unlock t s = s\<lparr>g_mutex := None, g_mutex_view := th_view t\<rparr>"

text \<open>
  One step of a thread inside a call. \<open>pthread_cond_signal\<close> changes nothing here, and
  \<open>pthread_cond_wait\<close> unlocks the mutex (line 193) and may wake up at any time, when it
  locks the mutex again; POSIX allows such wake-ups.
\<close>

definition advance :: "nat \<Rightarrow> nat \<Rightarrow> thread \<Rightarrow> process \<Rightarrow> (thread \<times> process) option" where
  "advance i c t s =
     (case th_pc t of
        Outside \<Rightarrow> None
      | L105 \<Rightarrow>
          (case load_stopping c t s of None \<Rightarrow> None
           | Some (v, t1) \<Rightarrow>
               if v then Some (returns (Ret_bool False) t1, s) else Some (t1\<lparr>th_pc := L110\<rparr>, s))
      | L110 \<Rightarrow>
          (case fetch_add_active 1 t s of (prev, t1, s1) \<Rightarrow> Some (t1\<lparr>th_pc := L117\<rparr>, s1))
      | L117 \<Rightarrow>
          (case load_stopping c t s of None \<Rightarrow> None
           | Some (v, t1) \<Rightarrow>
               if v then Some (t1\<lparr>th_pc := L118\<rparr>, s)
               else Some (returns (Ret_bool True) (t1\<lparr>th_depth := th_depth t1 + 1\<rparr>), s))
      | L118 \<Rightarrow>
          (case fetch_add_active (- 1) t s of (prev, t1, s1) \<Rightarrow>
             Some (returns (Ret_bool False) t1, s1))
      | L153 \<Rightarrow>
          (case fetch_add_active (- 1) t s of (prev, t1, s1) \<Rightarrow>
             if prev = 1 then Some (t1\<lparr>th_pc := L157\<rparr>, s1) else Some (returns Ret_void t1, s1))
      | L157 \<Rightarrow>
          (case load_stopping c t s of None \<Rightarrow> None
           | Some (v, t1) \<Rightarrow> Some (returns Ret_void t1, s))
      | L180 \<Rightarrow>
          (case mutex_lock i t s of None \<Rightarrow> None
           | Some (t1, s1) \<Rightarrow> Some (t1\<lparr>th_pc := L183\<rparr>, s1))
      | L183 \<Rightarrow>
          (case load_stopping c t s of None \<Rightarrow> None
           | Some (v, t1) \<Rightarrow>
               if v then Some (t1\<lparr>th_pc := L184\<rparr>, s) else Some (t1\<lparr>th_pc := L189\<rparr>, s))
      | L184 \<Rightarrow> Some (returns (Ret_stop STOP_OK) t, mutex_unlock t s)
      | L189 \<Rightarrow>
          (case store_stopping True t s of (t1, s1) \<Rightarrow> Some (t1\<lparr>th_pc := L192\<rparr>, s1))
      | L192 \<Rightarrow>
          (case load_active c t s of None \<Rightarrow> None
           | Some (v, t1) \<Rightarrow>
               if v > 0 then Some (t1\<lparr>th_pc := L193\<rparr>, s) else Some (t1\<lparr>th_pc := L197\<rparr>, s))
      | L193 \<Rightarrow> Some (t\<lparr>th_pc := L193_wake\<rparr>, mutex_unlock t s)
      | L193_wake \<Rightarrow>
          (case mutex_lock i t s of None \<Rightarrow> None
           | Some (t1, s1) \<Rightarrow> Some (t1\<lparr>th_pc := L192\<rparr>, s1))
      | L197 \<Rightarrow> Some (returns (Ret_stop STOP_OK) t, mutex_unlock t s))"

definition step :: "action \<Rightarrow> process \<Rightarrow> process option" where
  "step a s =
     (if g_aborted s then None
      else case a of
        Invoke i f \<Rightarrow>
          if \<not> i < length (threads s) \<or> th_pc (threads s ! i) \<noteq> Outside then None
          else (case invoke f (threads s ! i) (g_initialized s) of
                  None \<Rightarrow> Some (s\<lparr>g_aborted := True\<rparr>)
                | Some t \<Rightarrow> Some (set_thread i t s))
      | Advance i c \<Rightarrow>
          if \<not> i < length (threads s) then None
          else (case advance i c (threads s ! i) s of
                  None \<Rightarrow> None
                | Some (t, s1) \<Rightarrow> Some (set_thread i t s1)))"

fun run :: "action list \<Rightarrow> process \<Rightarrow> process option" where
  "run [] s = Some s"
| "run (a # as) s = (case step a s of None \<Rightarrow> None | Some s1 \<Rightarrow> run as s1)"

text \<open>
  A run is sequentially consistent when every load reads the last store to its object.
\<close>

definition latest_of :: "thread \<Rightarrow> process \<Rightarrow> nat" where
  "latest_of t s =
     (if th_pc t = L192 then length (g_active_callbacks s) - 1 else length (g_stopping s) - 1)"

fun sequentially_consistent :: "action list \<Rightarrow> process \<Rightarrow> bool" where
  "sequentially_consistent [] s = True"
| "sequentially_consistent (a # as) s =
     ((case a of Invoke i f \<Rightarrow> True
              | Advance i c \<Rightarrow> i < length (threads s) \<longrightarrow> c = latest_of (threads s ! i) s)
      \<and> (case step a s of None \<Rightarrow> True | Some s1 \<Rightarrow> sequentially_consistent as s1))"

definition is_stop :: "action \<Rightarrow> bool" where
  "is_stop a = (case a of Invoke i f \<Rightarrow> f = Api_stop | Advance i c \<Rightarrow> False)"

definition stop_invocations :: "action list \<Rightarrow> nat" where
  "stop_invocations as = length (filter is_stop as)"

text \<open>
  The last values of the two objects; what a thread has added to the counter and not yet
  taken back; the threads inside \<open>barrier_stop\<close>.
\<close>

definition stopping_now :: "process \<Rightarrow> bool" where
  "stopping_now s = fst (last (g_stopping s))"

definition count_now :: "process \<Rightarrow> int" where
  "count_now s = fst (last (g_active_callbacks s))"

definition counted :: "thread \<Rightarrow> int" where
  "counted t = th_depth t + (if th_pc t \<in> {L117, L118, L153} then 1 else 0)"

definition in_stop :: "thread \<Rightarrow> bool" where
  "in_stop t \<longleftrightarrow> th_pc t \<in> {L180, L183, L184, L189, L192, L193, L193_wake, L197}"

text \<open>
  Three runs of two threads, thread 0 stopping and thread 1 entering. In
  \<open>overlap_schedule\<close> the load of line 117 reads the first store to \<open>stopping\<close>
  although thread 0 has stored \<open>true\<close> since; in \<open>backout_schedule\<close> it reads the last
  one; in \<open>drain_schedule\<close> thread 0 waits until thread 1 has left.
\<close>

definition overlap_schedule :: "action list" where
  "overlap_schedule =
     [Invoke 1 Api_try_enter, Advance 1 0,
      Invoke 0 Api_stop, Advance 0 0, Advance 0 0, Advance 0 0, Advance 0 0,
      Advance 1 0, Advance 1 0,
      Advance 0 0]"

definition backout_schedule :: "action list" where
  "backout_schedule =
     [Invoke 1 Api_try_enter, Advance 1 0,
      Invoke 0 Api_stop, Advance 0 0, Advance 0 0, Advance 0 0, Advance 0 0,
      Advance 1 1, Advance 1 1, Advance 1 1,
      Advance 0 1]"

definition drain_schedule :: "action list" where
  "drain_schedule =
     [Invoke 1 Api_try_enter, Advance 1 0, Advance 1 0, Advance 1 0,
      Invoke 0 Api_stop, Advance 0 0, Advance 0 0, Advance 0 0, Advance 0 1, Advance 0 1,
      Invoke 1 Api_leave, Advance 1 1, Advance 1 1,
      Advance 0 1, Advance 0 2, Advance 0 1]"

definition observe :: "process \<Rightarrow> (pc \<times> int \<times> api_result option) list" where
  "observe s = map (\<lambda>t. (th_pc t, th_depth t, th_returned t)) (threads s)"

text \<open>What one step of a thread does when its load reads the last store.\<close>

definition sc_effect :: "thread \<Rightarrow> process \<Rightarrow> thread \<Rightarrow> process \<Rightarrow> bool" where
  "sc_effect t s t' s' \<longleftrightarrow>
     (case th_pc t of
        Outside \<Rightarrow> False
      | L105 \<Rightarrow> stopping_now s' = stopping_now s \<and> count_now s' = count_now s
                \<and> th_depth t' = th_depth t
                \<and> (if stopping_now s then th_pc t' = Outside \<and> th_returned t' = Some (Ret_bool False)
                    else th_pc t' = L110 \<and> th_returned t' = th_returned t)
      | L110 \<Rightarrow> stopping_now s' = stopping_now s \<and> count_now s' = count_now s + 1
                \<and> th_depth t' = th_depth t \<and> th_pc t' = L117 \<and> th_returned t' = th_returned t
      | L117 \<Rightarrow> stopping_now s' = stopping_now s \<and> count_now s' = count_now s
                \<and> (if stopping_now s
                    then th_pc t' = L118 \<and> th_depth t' = th_depth t \<and> th_returned t' = th_returned t
                    else th_pc t' = Outside \<and> th_depth t' = th_depth t + 1
                         \<and> th_returned t' = Some (Ret_bool True))
      | L118 \<Rightarrow> stopping_now s' = stopping_now s \<and> count_now s' = count_now s - 1
                \<and> th_depth t' = th_depth t \<and> th_pc t' = Outside
                \<and> th_returned t' = Some (Ret_bool False)
      | L153 \<Rightarrow> stopping_now s' = stopping_now s \<and> count_now s' = count_now s - 1
                \<and> th_depth t' = th_depth t
                \<and> (if count_now s = 1 then th_pc t' = L157 \<and> th_returned t' = th_returned t
                    else th_pc t' = Outside \<and> th_returned t' = Some Ret_void)
      | L157 \<Rightarrow> stopping_now s' = stopping_now s \<and> count_now s' = count_now s
                \<and> th_depth t' = th_depth t \<and> th_pc t' = Outside \<and> th_returned t' = Some Ret_void
      | L180 \<Rightarrow> stopping_now s' = stopping_now s \<and> count_now s' = count_now s
                \<and> th_depth t' = th_depth t \<and> th_pc t' = L183 \<and> th_returned t' = th_returned t
      | L183 \<Rightarrow> stopping_now s' = stopping_now s \<and> count_now s' = count_now s
                \<and> th_depth t' = th_depth t \<and> th_returned t' = th_returned t
                \<and> th_pc t' = (if stopping_now s then L184 else L189)
      | L184 \<Rightarrow> stopping_now s' = stopping_now s \<and> count_now s' = count_now s
                \<and> th_depth t' = th_depth t \<and> th_pc t' = Outside
                \<and> th_returned t' = Some (Ret_stop STOP_OK)
      | L189 \<Rightarrow> stopping_now s' \<and> count_now s' = count_now s
                \<and> th_depth t' = th_depth t \<and> th_pc t' = L192 \<and> th_returned t' = th_returned t
      | L192 \<Rightarrow> stopping_now s' = stopping_now s \<and> count_now s' = count_now s
                \<and> th_depth t' = th_depth t \<and> th_returned t' = th_returned t
                \<and> th_pc t' = (if count_now s > 0 then L193 else L197)
      | L193 \<Rightarrow> stopping_now s' = stopping_now s \<and> count_now s' = count_now s
                \<and> th_depth t' = th_depth t \<and> th_pc t' = L193_wake \<and> th_returned t' = th_returned t
      | L193_wake \<Rightarrow> stopping_now s' = stopping_now s \<and> count_now s' = count_now s
                \<and> th_depth t' = th_depth t \<and> th_pc t' = L192 \<and> th_returned t' = th_returned t
      | L197 \<Rightarrow> stopping_now s' = stopping_now s \<and> count_now s' = count_now s
                \<and> th_depth t' = th_depth t \<and> th_pc t' = Outside
                \<and> th_returned t' = Some (Ret_stop STOP_OK))"

text \<open>The invariant of the sequentially consistent runs with one call of \<open>barrier_stop\<close>.\<close>

definition stop_passed :: "thread \<Rightarrow> bool" where
  "stop_passed t \<longleftrightarrow> th_pc t = L197 \<or> th_returned t = Some (Ret_stop STOP_OK)"

definition sc_inv :: "process \<Rightarrow> bool" where
  "sc_inv s \<longleftrightarrow>
     g_initialized s \<and> g_stopping s \<noteq> [] \<and> g_active_callbacks s \<noteq> []
     \<and> (\<forall>j<length (threads s). 0 \<le> th_depth (threads s ! j))
     \<and> count_now s = sum_list (map counted (threads s))
     \<and> (\<forall>j<length (threads s). th_pc (threads s ! j) \<noteq> L184)
     \<and> (\<forall>j<length (threads s). th_pc (threads s ! j) \<in> {L180, L183, L189} \<longrightarrow> \<not> stopping_now s)
     \<and> (\<forall>j<length (threads s). th_pc (threads s ! j) \<in> {L192, L193, L193_wake, L197}
            \<longrightarrow> stopping_now s)
     \<and> (\<forall>j<length (threads s). stop_passed (threads s ! j) \<longrightarrow>
            stopping_now s \<and> (\<forall>k<length (threads s). th_depth (threads s ! k) = 0))
     \<and> (\<forall>j<length (threads s). \<forall>k<length (threads s).
            in_stop (threads s ! j) \<and> in_stop (threads s ! k) \<longrightarrow> j = k)"

definition not_stopping_yet :: "process \<Rightarrow> bool" where
  "not_stopping_yet s \<longleftrightarrow>
     \<not> stopping_now s \<and> (\<forall>j<length (threads s). \<not> in_stop (threads s ! j))"

section \<open>Properties of the event registry and of the handlers\<close>

lemma py_start_zero: "py_start api_ok tracker_zero = Returned (PyNone, tracker_started)"
  by (simp add: py_start_def api_ok_def tracker_zero_def tracker_started_def free_events_def
      barrier_init_def barrier_zero_def barrier_active_def obind_def)

lemma double_until_done: "\<not> c < n \<Longrightarrow> double_until c n = Some c"
  by (subst double_until.simps) simp

lemma double_until_step: "c < n \<Longrightarrow> double_until c n = double_until (c * 2) n"
  by (subst double_until.simps) simp

lemma double_until_Some:
  "0 < c \<Longrightarrow> \<exists>r. double_until c n = Some r \<and> n \<le> r \<and> c \<le> r"
proof (induction "n - c" arbitrary: c rule: less_induct)
  case less
  show ?case
  proof (cases "c < n")
    case True
    have "n - c * 2 < n - c" using True less.prems by simp
    from less.hyps[OF this] less.prems obtain r where
      "double_until (c * 2) n = Some r" "n \<le> r" "c * 2 \<le> r" by auto
    then show ?thesis using True by (simp add: double_until_step)
  next
    case False
    then show ?thesis by (simp add: double_until_done)
  qed
qed






















section \<open>Properties of the barrier and of stopping\<close>

text \<open>
  Claim C3: a \<open>stop\<close> by a thread that holds an entered section (its nesting depth is
  above zero) returns \<open>STOP_FROM_CALLBACK\<close> and changes nothing: in \<open>barrier_stop\<close>, in
  \<open>py_stop\<close> of the extension module (whose flag \<open>tracking_active\<close> is 1 again when it
  returns, so the session is still active) and in \<open>tracking_stop\<close> of callback.c.
\<close>

theorem stop_inside_section_rejected:
  assumes "tl_callback_depth b > 0"
  shows "barrier_stop b = Returned (STOP_FROM_CALLBACK, b)
       \<and> (tracking_active t = 1 \<and> t_barrier t = b \<longrightarrow>
            py_stop a t = Returned (PyRuntimeError ''Cannot stop() from tracked callback'', t)
            \<and> py_is_active t)
       \<and> (g_active s \<and> g_barrier s = b \<longrightarrow>
            tracking_stop s = Returned (STOP_FROM_CALLBACK, s) \<and> tracking_is_active s)"
  using assms
  by (auto simp add: barrier_stop_def py_stop_def tracking_stop_def obind_def py_is_active_def
      tracking_is_active_def)

theorem stop_inside_section_rejected_witness:
  "barrier_stop barrier_entered = Returned (STOP_FROM_CALLBACK, barrier_entered)
   \<and> py_stop api_ok (tracker_started\<lparr>t_barrier := barrier_entered\<rparr>)
       = Returned (PyRuntimeError ''Cannot stop() from tracked callback'',
                   tracker_started\<lparr>t_barrier := barrier_entered\<rparr>)
   \<and> tracking_stop (session_zero\<lparr>g_barrier := barrier_entered, g_active := True\<rparr>)
       = Returned (STOP_FROM_CALLBACK, session_zero\<lparr>g_barrier := barrier_entered, g_active := True\<rparr>)"
proof -
  have h: "tl_callback_depth barrier_entered > 0"
    by (simp add: barrier_entered_def)
  from stop_inside_section_rejected[OF h, of "tracker_started\<lparr>t_barrier := barrier_entered\<rparr>"
      api_ok "session_zero\<lparr>g_barrier := barrier_entered, g_active := True\<rparr>"]
  show ?thesis by (simp add: tracker_started_def)
qed

lemma barrier_stop_ok_stopped:
  "barrier_stop b = Returned (STOP_OK, b1) \<Longrightarrow>
   \<not> 0 < tl_callback_depth b1 \<and> (\<not> initialized b1 \<or> stopping b1)"
  by (auto simp add: barrier_stop_def Let_def split: if_splits)

lemma barrier_apply_stopped:
  "\<not> 0 < tl_callback_depth b \<and> (\<not> initialized b \<or> stopping b) \<Longrightarrow>
   barrier_apply x b = Returned b' \<Longrightarrow>
   \<not> 0 < tl_callback_depth b' \<and> (\<not> initialized b' \<or> stopping b')"
  by (cases x)
     (auto simp add: barrier_try_enter_def barrier_leave_def barrier_stop_def barrier_destroy_def
        obind_def Let_def split: if_splits)

lemma barrier_run_stopped:
  "\<not> 0 < tl_callback_depth b \<and> (\<not> initialized b \<or> stopping b) \<Longrightarrow>
   barrier_run xs b = Returned b' \<Longrightarrow>
   \<not> 0 < tl_callback_depth b' \<and> (\<not> initialized b' \<or> stopping b')"
proof (induction xs arbitrary: b)
  case Nil
  then show ?case by simp
next
  case (Cons x xs)
  from Cons.prems(2) obtain b1 where
    s: "barrier_apply x b = Returned b1" and r: "barrier_run xs b1 = Returned b'"
    by (auto simp add: obind_def split: outcome.splits)
  from barrier_apply_stopped[OF Cons.prems(1) s] Cons.IH[OF _ r] show ?case by blast
qed

lemma stopped_barrier_stop:
  "\<not> 0 < tl_callback_depth b \<and> (\<not> initialized b \<or> stopping b) \<Longrightarrow>
   barrier_stop b = Returned (STOP_OK, b)"
  by (auto simp add: barrier_stop_def)

lemma tracking_stop_twice:
  "tracking_stop s = Returned (STOP_OK, s1) \<Longrightarrow> tracking_stop s1 = Returned (STOP_OK, s1)"
  by (auto simp add: tracking_stop_def obind_def split: if_splits outcome.splits prod.splits)

text \<open>
  Claim C7, as the spec states it: after a \<open>stop\<close> that returned \<open>Ok\<close>, every later
  \<open>stop\<close> returns \<open>Ok\<close>, at the level of the barrier and of the session. The session
  operation of the extension module does otherwise: the first \<open>py_stop\<close> on a started
  tracker returns the events, the second one raises \<open>RuntimeError("Not started")\<close>.
\<close>

theorem py_stop_twice_counterexample:
  "py_stop api_ok tracker_started = Returned (PyEvents [], tracker_stopped)
   \<and> py_stop api_ok tracker_stopped = Returned (PyRuntimeError ''Not started'', tracker_stopped)"
  by (simp add: py_stop_def api_ok_def tracker_started_def tracker_stopped_def tracker_zero_def
      barrier_stop_def barrier_active_def barrier_zero_def barrier_destroy_def free_events_def
      obind_def Let_def)

text \<open>
  Claim C7, amended: \<open>barrier_stop\<close> is idempotent: after it has returned \<open>STOP_OK\<close>,
  and after any further calls of \<open>barrier_try_enter\<close>, \<open>barrier_leave\<close>,
  \<open>barrier_stop\<close> and \<open>barrier_destroy\<close> by the same thread that returned, it returns
  \<open>STOP_OK\<close> again, at once and without a change of state (it does not reach the wait).
  So is \<open>tracking_stop\<close> of callback.c. (\<open>py_stop\<close> of the extension module is not:
  it rejects a second call.)
\<close>

theorem stop_idempotent:
  "(barrier_stop b = Returned (STOP_OK, b1) \<and> barrier_run ops b1 = Returned b2
      \<longrightarrow> barrier_stop b2 = Returned (STOP_OK, b2))
   \<and> (tracking_stop s = Returned (STOP_OK, s1) \<longrightarrow> tracking_stop s1 = Returned (STOP_OK, s1))"
  using barrier_stop_ok_stopped[of b b1] barrier_run_stopped[of b1 ops b2] stopped_barrier_stop[of b2]
    tracking_stop_twice[of s s1] by blast

theorem stop_idempotent_witness:
  "barrier_stop barrier_active = Returned (STOP_OK, barrier_active\<lparr>stopping := True\<rparr>)
   \<and> barrier_run [OpTryEnter, OpStop, OpDestroy, OpLeave] (barrier_active\<lparr>stopping := True\<rparr>)
       = Returned (barrier_zero\<lparr>stopping := True\<rparr>)
   \<and> barrier_stop (barrier_zero\<lparr>stopping := True\<rparr>)
       = Returned (STOP_OK, barrier_zero\<lparr>stopping := True\<rparr>)
   \<and> tracking_stop (session_zero\<lparr>g_barrier := barrier_active, g_active := True\<rparr>)
       = Returned (STOP_OK, session_zero\<lparr>g_barrier := barrier_zero\<lparr>stopping := True\<rparr>\<rparr>)
   \<and> tracking_stop (session_zero\<lparr>g_barrier := barrier_zero\<lparr>stopping := True\<rparr>\<rparr>)
       = Returned (STOP_OK, session_zero\<lparr>g_barrier := barrier_zero\<lparr>stopping := True\<rparr>\<rparr>)"
proof -
  have 1: "barrier_stop barrier_active = Returned (STOP_OK, barrier_active\<lparr>stopping := True\<rparr>)"
    by (simp add: barrier_stop_def barrier_active_def barrier_zero_def)
  have 2: "barrier_run [OpTryEnter, OpStop, OpDestroy, OpLeave] (barrier_active\<lparr>stopping := True\<rparr>)
       = Returned (barrier_zero\<lparr>stopping := True\<rparr>)"
    by (simp add: barrier_try_enter_def barrier_stop_def barrier_destroy_def barrier_leave_def
        barrier_active_def barrier_zero_def obind_def)
  have 3: "tracking_stop (session_zero\<lparr>g_barrier := barrier_active, g_active := True\<rparr>)
       = Returned (STOP_OK, session_zero\<lparr>g_barrier := barrier_zero\<lparr>stopping := True\<rparr>\<rparr>)"
    by (simp add: tracking_stop_def session_zero_def barrier_stop_def barrier_active_def
        barrier_zero_def barrier_destroy_def string_table_destroy_def table_zero_def obind_def)
  from stop_idempotent[of barrier_active "barrier_active\<lparr>stopping := True\<rparr>"
      "[OpTryEnter, OpStop, OpDestroy, OpLeave]" "barrier_zero\<lparr>stopping := True\<rparr>"
      "session_zero\<lparr>g_barrier := barrier_active, g_active := True\<rparr>"
      "session_zero\<lparr>g_barrier := barrier_zero\<lparr>stopping := True\<rparr>\<rparr>"] 1 2 3
  show ?thesis by simp
qed

text \<open>
  Claim C9: \<open>string_intern\<close> of a string that is not null, on a table that is not
  initialised, aborts the process (\<open>ASSERT_INITIALIZED\<close>); the operations of a barrier
  that is not initialised return: \<open>barrier_try_enter\<close> returns false, \<open>barrier_leave\<close>
  does nothing, \<open>barrier_stop\<close> returns a result, and none changes the state.
\<close>

theorem intern_uninitialized_aborts:
  assumes "\<not> table_initialized T" and "\<not> initialized b"
  shows "string_intern a (Some s) T = Aborted
       \<and> barrier_try_enter b = (False, b)
       \<and> barrier_leave b = Returned b
       \<and> barrier_stop b = Returned (if tl_callback_depth b > 0 then STOP_FROM_CALLBACK
                                    else STOP_OK, b)"
  using assms
  by (simp add: string_intern_def barrier_try_enter_def barrier_leave_def barrier_stop_def)

theorem intern_uninitialized_aborts_witness:
  "string_intern intern_ok (Some ''x'') table_zero = Aborted
   \<and> string_intern intern_ok (Some ''x'') (string_table_destroy table_four) = Aborted
   \<and> barrier_try_enter (barrier_destroy barrier_active) = (False, barrier_destroy barrier_active)
   \<and> barrier_leave (barrier_destroy barrier_active) = Returned (barrier_destroy barrier_active)
   \<and> barrier_stop (barrier_destroy barrier_active) = Returned (STOP_OK, barrier_destroy barrier_active)"
proof -
  have h: "\<not> table_initialized table_zero"
    "\<not> table_initialized (string_table_destroy table_four)"
    "\<not> initialized (barrier_destroy barrier_active)"
    "\<not> tl_callback_depth (barrier_destroy barrier_active) > 0"
    by (simp_all add: table_zero_def string_table_destroy_def barrier_destroy_def
        barrier_active_def barrier_zero_def)
  from intern_uninitialized_aborts[OF h(1) h(3), of intern_ok "''x''"]
    intern_uninitialized_aborts[OF h(2) h(3), of intern_ok "''x''"] h(4)
  show ?thesis by simp
qed

text \<open>
  Claim C10: \<open>tracking_dispatch\<close> with a null event returns at once, whatever the state
  and whatever the registered callback does: the state, which holds the barrier, is
  unchanged. \<open>barrier_dispatch\<close> with a null callback does the same.
\<close>

theorem dispatch_null_event_noop:
  "tracking_dispatch env None s = Returned s \<and> barrier_dispatch None s = Returned s"
  by (simp add: tracking_dispatch_def barrier_dispatch_def)

section \<open>Properties of the frame stacks\<close>

lemma push_depth:
  "frame_stack_push ok info fs = Returned fs' \<Longrightarrow> tl_depth fs' = tl_depth fs + 1"
  by (auto simp add: frame_stack_push_def ensure_capacity_def obind_def Let_def
      split: option.splits if_splits)

lemma pop_depth:
  "frame_stack_pop fs = Returned fs' \<Longrightarrow> tl_depth fs' + 1 = tl_depth fs"
  by (auto simp add: frame_stack_pop_def Let_def split: if_splits)

lemma run_depth:
  "frame_stack_run ops fs = Returned fs' \<Longrightarrow>
   int (tl_depth fs') = int (tl_depth fs) + op_balance ops"
proof (induction ops arbitrary: fs)
  case Nil
  then show ?case by simp
next
  case (Cons x xs)
  from Cons.prems obtain fs1 where
    s: "frame_stack_apply x fs = Returned fs1" and r: "frame_stack_run xs fs1 = Returned fs'"
    by (auto simp add: obind_def split: outcome.splits)
  from Cons.IH[OF r] have ih: "int (tl_depth fs') = int (tl_depth fs1) + op_balance xs" .
  show ?case
  proof (cases x)
    case (Push ok info)
    with s have "frame_stack_push ok info fs = Returned fs1" by simp
    from push_depth[OF this] ih Push show ?thesis by simp
  next
    case Pop
    with s have "frame_stack_pop fs = Returned fs1" by simp
    from pop_depth[OF this] ih Pop show ?thesis by simp
  qed
qed

lemma run_prefix:
  "frame_stack_run ops fs = Returned fs' \<Longrightarrow> \<exists>fs''. frame_stack_run (take n ops) fs = Returned fs''"
proof (induction ops arbitrary: fs n)
  case Nil
  then show ?case by simp
next
  case (Cons x xs)
  from Cons.prems obtain fs1 where
    s: "frame_stack_apply x fs = Returned fs1" and r: "frame_stack_run xs fs1 = Returned fs'"
    by (auto simp add: obind_def split: outcome.splits)
  show ?case
  proof (cases n)
    case 0
    then show ?thesis by simp
  next
    case (Suc m)
    from Cons.IH[OF r, of m] s Suc show ?thesis by (simp add: obind_def)
  qed
qed

lemma push_total:
  "\<exists>fs'. frame_stack_push True (Some f) fs = Returned fs'"
  by (simp add: frame_stack_push_def ensure_capacity_def obind_def Let_def)

lemma run_total:
  "\<forall>x\<in>set ops. push_succeeds x \<Longrightarrow>
   \<forall>n\<le>length ops. 0 \<le> int (tl_depth fs) + op_balance (take n ops) \<Longrightarrow>
   \<exists>fs'. frame_stack_run ops fs = Returned fs'"
proof (induction ops arbitrary: fs)
  case Nil
  then show ?case by simp
next
  case (Cons x xs)
  have "\<exists>fs1. frame_stack_apply x fs = Returned fs1"
  proof (cases x)
    case (Push ok info)
    with Cons.prems(1) obtain f where "ok" "info = Some f" by auto
    with Push push_total[of f fs] show ?thesis by simp
  next
    case Pop
    from Cons.prems(2)[rule_format, of 1] Pop have "0 < tl_depth fs" by simp
    with Pop show ?thesis by (simp add: frame_stack_pop_def Let_def)
  qed
  then obtain fs1 where s: "frame_stack_apply x fs = Returned fs1" by blast
  have d: "int (tl_depth fs1) = int (tl_depth fs) + op_balance [x]"
    using s by (cases x) (auto dest: push_depth pop_depth)
  have "\<forall>n\<le>length xs. 0 \<le> int (tl_depth fs1) + op_balance (take n xs)"
  proof (intro allI impI)
    fix n assume "n \<le> length xs"
    with Cons.prems(2)[rule_format, of "Suc n"] have "0 \<le> int (tl_depth fs) + op_balance (x # take n xs)"
      by simp
    then show "0 \<le> int (tl_depth fs1) + op_balance (take n xs)"
      using d by (cases x) auto
  qed
  with Cons.IH[of fs1] Cons.prems(1) obtain fs' where "frame_stack_run xs fs1 = Returned fs'"
    by auto
  with s show ?case by (simp add: obind_def)
qed

lemma cs_run:
  "\<forall>n\<le>length es. 0 \<le> stack_depth t + event_balance (take n es)
       \<and> stack_depth t + event_balance (take n es) \<le> MAX_STACK_DEPTH \<Longrightarrow>
   stack_depth (call_stack_run es t) = stack_depth t + event_balance es"
proof (induction es arbitrary: t)
  case Nil
  then show ?case by simp
next
  case (Cons e es)
  from Cons.prems[rule_format, of 0] have d0: "0 \<le> stack_depth t" "stack_depth t \<le> MAX_STACK_DEPTH" by auto
  from Cons.prems[rule_format, of 1] have d1: "0 \<le> stack_depth t + event_balance [e]"
     "stack_depth t + event_balance [e] \<le> MAX_STACK_DEPTH" by auto
  have s: "stack_depth (call_stack_observe e t) = stack_depth t + event_balance [e]"
    using d0 d1 by (cases e) (auto simp add: call_stack_push_def call_stack_pop_def)
  have "\<forall>n\<le>length es. 0 \<le> stack_depth (call_stack_observe e t) + event_balance (take n es)
       \<and> stack_depth (call_stack_observe e t) + event_balance (take n es) \<le> MAX_STACK_DEPTH"
  proof (intro allI impI)
    fix n assume "n \<le> length es"
    with Cons.prems[rule_format, of "Suc n"] s
    show "0 \<le> stack_depth (call_stack_observe e t) + event_balance (take n es)
       \<and> stack_depth (call_stack_observe e t) + event_balance (take n es) \<le> MAX_STACK_DEPTH"
      by (cases e) auto
  qed
  from Cons.IH[OF this] s show ?case by (cases e) auto
qed

lemma take_take_le: "m \<le> n \<Longrightarrow> take m (take n xs) = take m xs"
  by (simp add: min_def)

lemma cs_run_append: "call_stack_run (xs @ ys) t = call_stack_run ys (call_stack_run xs t)"
  by (induction xs arbitrary: t) auto

lemma balance_append: "event_balance (xs @ ys) = event_balance xs + event_balance ys"
  by (induction xs rule: event_balance.induct) auto

lemma balance_replicate: "event_balance (replicate n (Call f)) = int n"
  by (induction n) auto

lemma cs_run_calls:
  "0 \<le> stack_depth t \<Longrightarrow> stack_depth t \<le> MAX_STACK_DEPTH \<Longrightarrow>
   stack_depth (call_stack_run (replicate n (Call f)) t) = min (stack_depth t + int n) MAX_STACK_DEPTH"
proof (induction n arbitrary: t)
  case 0
  then show ?case by simp
next
  case (Suc n)
  have "0 \<le> stack_depth (call_stack_push f t)" "stack_depth (call_stack_push f t) \<le> MAX_STACK_DEPTH"
    using Suc.prems by (auto simp add: call_stack_push_def)
  from Suc.IH[OF this] Suc.prems show ?case
    by (auto simp add: call_stack_push_def min_def)
qed

text \<open>
  Claim C4, as the spec states it: for every sequence of calls and returns, recursion of
  any depth included, the depth of the frame stack is the number of calls minus the number
  of returns. The \<open>call_stack\<close> of the frame evaluator does otherwise: it has
  \<open>MAX_STACK_DEPTH = 256\<close> cells, a call at depth 256 is not pushed, and the return that
  follows pops: after 257 nested calls and one return its depth is 255, with 256 calls
  unmatched.
\<close>

theorem call_stack_saturates_counterexample:
  "stack_depth (call_stack_run (replicate 257 (Call frame_info_zero) @ [Return]) tracker_zero) = 255
   \<and> stack_depth tracker_zero + event_balance (replicate 257 (Call frame_info_zero) @ [Return]) = 256"
proof -
  have z: "stack_depth tracker_zero = 0" by (simp add: tracker_zero_def)
  have "stack_depth (call_stack_run (replicate 257 (Call frame_info_zero)) tracker_zero) = 256"
    using cs_run_calls[of tracker_zero 257 frame_info_zero] z by (simp add: MAX_STACK_DEPTH_def)
  then show ?thesis
    by (simp add: cs_run_append balance_append balance_replicate call_stack_pop_def z)
qed

text \<open>
  Claim C4, amended: at every point of a sequence of pushes and pops that \<open>frame.c\<close>
  runs without aborting, the depth of its frame stack is the depth at the start plus the
  number of pushes minus the number of pops, whatever the depth; and a sequence runs
  without aborting when its allocations succeed, its frames are not null and no pop finds
  the stack empty. The \<open>call_stack\<close> of the frame evaluator has the same property at
  every point of a sequence whose nesting stays between 0 and \<open>MAX_STACK_DEPTH\<close>.
\<close>

theorem stack_depth_is_balance:
  "(frame_stack_run ops fs = Returned fs' \<longrightarrow>
      (\<forall>n\<le>length ops. \<exists>fs''. frame_stack_run (take n ops) fs = Returned fs''
          \<and> int (frame_stack_depth fs'') = int (frame_stack_depth fs) + op_balance (take n ops)))
   \<and> ((\<forall>x\<in>set ops. push_succeeds x)
        \<and> (\<forall>n\<le>length ops. 0 \<le> int (frame_stack_depth fs) + op_balance (take n ops))
      \<longrightarrow> (\<exists>fs'. frame_stack_run ops fs = Returned fs'))
   \<and> ((\<forall>n\<le>length es. 0 \<le> stack_depth t + event_balance (take n es)
                       \<and> stack_depth t + event_balance (take n es) \<le> MAX_STACK_DEPTH)
      \<longrightarrow> (\<forall>n\<le>length es. stack_depth (call_stack_run (take n es) t)
                              = stack_depth t + event_balance (take n es)))"
proof (intro conjI impI allI)
  fix n
  assume r: "frame_stack_run ops fs = Returned fs'" and "n \<le> length ops"
  from run_prefix[OF r, of n] obtain fs'' where p: "frame_stack_run (take n ops) fs = Returned fs''"
    by blast
  from run_depth[OF p] p
  show "\<exists>fs''. frame_stack_run (take n ops) fs = Returned fs''
          \<and> int (frame_stack_depth fs'') = int (frame_stack_depth fs) + op_balance (take n ops)"
    by (simp add: frame_stack_depth_def)
next
  assume "(\<forall>x\<in>set ops. push_succeeds x)
        \<and> (\<forall>n\<le>length ops. 0 \<le> int (frame_stack_depth fs) + op_balance (take n ops))"
  then show "\<exists>fs'. frame_stack_run ops fs = Returned fs'"
    using run_total[of ops fs] by (simp add: frame_stack_depth_def)
next
  fix n
  assume a: "\<forall>n\<le>length es. 0 \<le> stack_depth t + event_balance (take n es)
                       \<and> stack_depth t + event_balance (take n es) \<le> MAX_STACK_DEPTH"
    and n: "n \<le> length es"
  have "\<forall>m\<le>length (take n es). 0 \<le> stack_depth t + event_balance (take m (take n es))
       \<and> stack_depth t + event_balance (take m (take n es)) \<le> MAX_STACK_DEPTH"
  proof (intro allI impI)
    fix m assume "m \<le> length (take n es)"
    then have "m \<le> n" "m \<le> length es" using n by auto
    then show "0 \<le> stack_depth t + event_balance (take m (take n es))
       \<and> stack_depth t + event_balance (take m (take n es)) \<le> MAX_STACK_DEPTH"
      using a by (simp add: take_take_le)
  qed
  from cs_run[OF this]
  show "stack_depth (call_stack_run (take n es) t) = stack_depth t + event_balance (take n es)" .
qed

theorem stack_depth_is_balance_witness:
  "(\<exists>fs''. frame_stack_run [Push True (Some FRAME_NO_CALLER), Push True (Some FRAME_NO_CALLER), Pop]
              (frame_stack_clear frame_stack_zero) = Returned fs''
          \<and> int (frame_stack_depth fs'') = 1)
   \<and> stack_depth (call_stack_run [Call frame_info_zero, Call frame_info_zero, Return] tracker_zero) = 1"
proof -
  let ?ops = "[Push True (Some FRAME_NO_CALLER), Push True (Some FRAME_NO_CALLER), Pop]"
  let ?fs = "frame_stack_clear frame_stack_zero"
  let ?es = "[Call frame_info_zero, Call frame_info_zero, Return]"
  have d: "frame_stack_depth ?fs = 0" "stack_depth tracker_zero = 0"
    by (simp_all add: frame_stack_depth_def frame_stack_clear_def frame_stack_zero_def
        tracker_zero_def)
  have a: "\<forall>x\<in>set ?ops. push_succeeds x" by simp
  have b: "\<forall>n\<le>length ?ops. 0 \<le> int (frame_stack_depth ?fs) + op_balance (take n ?ops)"
    by (simp add: d take_Cons' le_Suc_eq)
  have c: "\<forall>n\<le>length ?es. 0 \<le> stack_depth tracker_zero + event_balance (take n ?es)
                       \<and> stack_depth tracker_zero + event_balance (take n ?es) \<le> MAX_STACK_DEPTH"
    by (simp add: d take_Cons' MAX_STACK_DEPTH_def le_Suc_eq)
  from stack_depth_is_balance[of ?ops ?fs undefined ?es tracker_zero] a b
  obtain fs' where r: "frame_stack_run ?ops ?fs = Returned fs'" by blast
  note T = stack_depth_is_balance[of ?ops ?fs fs' ?es tracker_zero]
  from T r have A: "\<forall>n\<le>length ?ops. \<exists>fs''. frame_stack_run (take n ?ops) ?fs = Returned fs''
          \<and> int (frame_stack_depth fs'') = int (frame_stack_depth ?fs) + op_balance (take n ?ops)"
    by blast
  from T c have B: "\<forall>n\<le>length ?es. stack_depth (call_stack_run (take n ?es) tracker_zero)
          = stack_depth tracker_zero + event_balance (take n ?es)"
    by blast
  from A[rule_format, of 3] B[rule_format, of 3] d show ?thesis by simp
qed

section \<open>Properties of the interning table\<close>

lemma probe_not_start:
  "start < cap \<Longrightarrow> 0 < k \<Longrightarrow> k < cap \<Longrightarrow> (start + k) mod cap \<noteq> (start::nat)"
proof
  assume a: "start < cap" "0 < k" "k < cap" "(start + k) mod cap = start"
  show False
  proof (cases "start + k < cap")
    case True
    with a show False by simp
  next
    case False
    then have "(start + k) mod cap = (start + k - cap) mod cap"
      by (simp add: le_mod_geq)
    also have "\<dots> = start + k - cap" using a by (intro mod_less) simp
    finally show False using a False by simp
  qed
qed

lemma probe_suc: "((start + k) mod cap + 1) mod cap = (start + Suc k) mod (cap::nat)"
  by (simp add: mod_Suc_eq)

lemma probe_surj:
  assumes "i < cap" "start < (cap::nat)"
  shows "\<exists>k<cap. i = (start + k) mod cap"
proof (cases "start \<le> i")
  case True
  with assms have "i - start < cap" "i = (start + (i - start)) mod cap" by auto
  then show ?thesis by blast
next
  case False
  with assms have a: "i + cap - start < cap" "start + (i + cap - start) = i + cap"
    by auto
  have "(start + (i + cap - start)) mod cap = i"
    using assms by (simp add: a(2))
  with a(1) show ?thesis by metis
qed

lemma find_bucket_loop_found:
  assumes "start < buckets_capacity T" "m < buckets_capacity T" "k \<le> m"
    and "\<forall>j. k \<le> j \<and> j < m \<longrightarrow>
           buckets T ! ((start + j) mod buckets_capacity T) \<noteq> STRING_TABLE_EMPTY
           \<and> strings T ! (buckets T ! ((start + j) mod buckets_capacity T)) \<noteq> s"
    and "buckets T ! ((start + m) mod buckets_capacity T) = STRING_TABLE_EMPTY
         \<or> strings T ! (buckets T ! ((start + m) mod buckets_capacity T)) = s"
  shows "find_bucket_loop T s start ((start + k) mod buckets_capacity T)
         = Some (Returned ((start + m) mod buckets_capacity T,
                           buckets T ! ((start + m) mod buckets_capacity T) \<noteq> STRING_TABLE_EMPTY))"
  using assms(3,4)
proof (induction "m - k" arbitrary: k)
  case 0
  then have "k = m" by simp
  with assms(5) show ?case
    by (subst find_bucket_loop.simps) (auto simp add: Let_def)
next
  case (Suc d)
  then have km: "k < m" by simp
  with Suc.prems have ne: "buckets T ! ((start + k) mod buckets_capacity T) \<noteq> STRING_TABLE_EMPTY"
    "strings T ! (buckets T ! ((start + k) mod buckets_capacity T)) \<noteq> s" by auto
  have nx: "((start + k) mod buckets_capacity T + 1) mod buckets_capacity T
             = (start + Suc k) mod buckets_capacity T" by (rule probe_suc)
  have "(start + Suc k) mod buckets_capacity T \<noteq> start"
    using probe_not_start[of start "buckets_capacity T" "Suc k"] assms(1,2) km by simp
  moreover have "find_bucket_loop T s start ((start + Suc k) mod buckets_capacity T)
         = Some (Returned ((start + m) mod buckets_capacity T,
                           buckets T ! ((start + m) mod buckets_capacity T) \<noteq> STRING_TABLE_EMPTY))"
    using Suc.hyps(1)[of "Suc k"] Suc.hyps(2) km Suc.prems(2) by auto
  ultimately show ?case using ne nx
    by (subst find_bucket_loop.simps) (simp add: Let_def)
qed

lemma find_bucket_result:
  assumes inv: "index_inv T"
    and empty: "\<exists>i<buckets_capacity T. buckets T ! i = STRING_TABLE_EMPTY"
  shows "\<exists>idx<buckets_capacity T.
           find_bucket T s (fnv1a_hash s) = Returned (idx, stored T s)
           \<and> (stored T s \<longrightarrow> buckets T ! idx \<noteq> STRING_TABLE_EMPTY
                              \<and> strings T ! (buckets T ! idx) = s)
           \<and> (\<not> stored T s \<longrightarrow> buckets T ! idx = STRING_TABLE_EMPTY
                              \<and> reachable T (home T s) idx)"
proof -
  let ?cap = "buckets_capacity T"
  let ?start = "home T s"
  let ?p = "\<lambda>k. (?start + k) mod ?cap"
  let ?hit = "\<lambda>m. m < ?cap \<and> (buckets T ! ?p m = STRING_TABLE_EMPTY
                              \<or> strings T ! (buckets T ! ?p m) = s)"
  from inv have cap: "0 < ?cap" by (simp add: index_inv_def)
  then have st: "?start < ?cap" by (simp add: home_def)
  from empty obtain i0 where i0: "i0 < ?cap" "buckets T ! i0 = STRING_TABLE_EMPTY" by blast
  from probe_surj[OF i0(1) st] obtain m0 where m0: "m0 < ?cap" "i0 = ?p m0" by blast
  with i0 have "?hit m0" by simp
  define m where "m = (LEAST m. ?hit m)"
  have hm: "?hit m" unfolding m_def using \<open>?hit m0\<close> by (rule LeastI)
  have least: "\<And>j. j < m \<Longrightarrow> \<not> ?hit j" unfolding m_def by (rule not_less_Least)
  have before: "\<forall>j. 0 \<le> j \<and> j < m \<longrightarrow> buckets T ! ?p j \<noteq> STRING_TABLE_EMPTY
           \<and> strings T ! (buckets T ! ?p j) \<noteq> s"
  proof (intro allI impI)
    fix j assume "0 \<le> j \<and> j < m"
    then have "j < m" by simp
    with least[of j] hm show "buckets T ! ?p j \<noteq> STRING_TABLE_EMPTY
           \<and> strings T ! (buckets T ! ?p j) \<noteq> s" by auto
  qed
  have "find_bucket_loop T s ?start (?p 0)
         = Some (Returned (?p m, buckets T ! ?p m \<noteq> STRING_TABLE_EMPTY))"
    using hm before by (intro find_bucket_loop_found[OF st]) auto
  moreover have "?p 0 = ?start" using st by simp
  ultimately have loop: "find_bucket_loop T s ?start ?start
         = Some (Returned (?p m, buckets T ! ?p m \<noteq> STRING_TABLE_EMPTY))" by simp
  have fb: "find_bucket T s (fnv1a_hash s) = Returned (?p m, buckets T ! ?p m \<noteq> STRING_TABLE_EMPTY)"
    using cap loop by (simp add: find_bucket_def of_loop_def home_def Let_def)
  have pm: "?p m < ?cap" using cap by simp
  have st_iff: "stored T s \<longleftrightarrow> buckets T ! ?p m \<noteq> STRING_TABLE_EMPTY"
  proof
    assume "stored T s"
    then obtain i where i: "i < ?cap" "buckets T ! i \<noteq> STRING_TABLE_EMPTY"
      "strings T ! (buckets T ! i) = s" by (auto simp add: stored_def)
    with inv have "reachable T ?start i" by (auto simp add: index_inv_def)
    then obtain k0 where k0: "k0 < ?cap" "i = ?p k0"
      "\<forall>j<k0. buckets T ! ?p j \<noteq> STRING_TABLE_EMPTY" by (auto simp add: reachable_def)
    have "?hit k0" using k0 i by simp
    then have "m \<le> k0" unfolding m_def by (rule Least_le)
    show "buckets T ! ?p m \<noteq> STRING_TABLE_EMPTY"
    proof (cases "m = k0")
      case True
      with k0 i show ?thesis by simp
    next
      case False
      with \<open>m \<le> k0\<close> have "m < k0" by simp
      with k0(3) show ?thesis by simp
    qed
  next
    assume ne: "buckets T ! ?p m \<noteq> STRING_TABLE_EMPTY"
    with hm have "strings T ! (buckets T ! ?p m) = s" by simp
    with ne pm show "stored T s" unfolding stored_def by blast
  qed
  have r: "reachable T ?start (?p m)"
    unfolding reachable_def using hm before by auto
  show ?thesis
    using fb pm st_iff hm r by (intro exI[of _ "?p m"]) auto
qed

lemma filter_update_length:
  "i < length xs \<Longrightarrow> \<not> P (xs ! i) \<Longrightarrow> P y \<Longrightarrow>
   length (filter P (xs[i := y])) = Suc (length (filter P xs))"
proof (induction xs arbitrary: i)
  case Nil
  then show ?case by simp
next
  case (Cons x xs)
  then show ?case by (cases i) auto
qed

lemma exists_empty:
  assumes "occupied T < length (buckets T)"
  shows "\<exists>i<length (buckets T). buckets T ! i = STRING_TABLE_EMPTY"
proof (rule ccontr)
  assume "\<not> ?thesis"
  then have "\<forall>x\<in>set (buckets T). x \<noteq> STRING_TABLE_EMPTY"
    by (auto simp add: in_set_conv_nth)
  then have "filter (\<lambda>e. e \<noteq> STRING_TABLE_EMPTY) (buckets T) = buckets T"
    by (simp add: filter_id_conv)
  with assms show False by (simp add: occupied_def)
qed

lemma distinct_filter_inj:
  "\<forall>i<length xs. \<forall>j<length xs. P (xs ! i) \<and> xs ! i = xs ! j \<longrightarrow> i = j \<Longrightarrow>
   distinct (filter P xs)"
proof (induction xs)
  case Nil
  then show ?case by simp
next
  case (Cons x xs)
  have ih: "distinct (filter P xs)"
  proof (rule Cons.IH, intro allI impI)
    fix i j assume a: "i < length xs" "j < length xs" "P (xs ! i) \<and> xs ! i = xs ! j"
    then have "Suc i < length (x # xs)" "Suc j < length (x # xs)"
      "P ((x # xs) ! Suc i) \<and> (x # xs) ! Suc i = (x # xs) ! Suc j" by auto
    with Cons.prems have "Suc i = Suc j" by blast
    then show "i = j" by simp
  qed
  have "P x \<Longrightarrow> x \<notin> set xs"
  proof
    assume "P x" "x \<in> set xs"
    then obtain j where "j < length xs" "xs ! j = x" by (auto simp add: in_set_conv_nth)
    with \<open>P x\<close> have "0 < length (x # xs)" "Suc j < length (x # xs)"
      "P ((x # xs) ! 0) \<and> (x # xs) ! 0 = (x # xs) ! Suc j" by auto
    with Cons.prems have "0 = Suc j" by blast
    then show False by simp
  qed
  with ih show ?case by auto
qed

lemma reachable_update:
  assumes "reachable T start i" "e \<noteq> STRING_TABLE_EMPTY"
  shows "reachable (T\<lparr>strings := S', buckets := (buckets T)[idx := e]\<rparr>) start i"
proof -
  from assms(1) obtain k where k: "k < buckets_capacity T" "i = (start + k) mod buckets_capacity T"
    "\<forall>j<k. buckets T ! ((start + j) mod buckets_capacity T) \<noteq> STRING_TABLE_EMPTY"
    by (auto simp add: reachable_def)
  have "\<forall>j<k. (buckets T)[idx := e] ! ((start + j) mod buckets_capacity T) \<noteq> STRING_TABLE_EMPTY"
  proof (intro allI impI)
    fix j assume "j < k"
    with k(3) have "buckets T ! ((start + j) mod buckets_capacity T) \<noteq> STRING_TABLE_EMPTY" by simp
    with assms(2) show "(buckets T)[idx := e] ! ((start + j) mod buckets_capacity T) \<noteq> STRING_TABLE_EMPTY"
      by (cases "idx < length (buckets T)") (auto simp add: nth_list_update list_update_beyond)
  qed
  with k(1,2) show ?thesis by (auto simp add: reachable_def)
qed

lemma index_inv_insert:
  assumes inv: "index_inv T" and idx: "idx < buckets_capacity T"
    and emp: "buckets T ! idx = STRING_TABLE_EMPTY"
    and rch: "reachable T (home T s) idx"
    and e: "e \<noteq> STRING_TABLE_EMPTY" "e < length S'" "S' ! e = s"
    and fresh: "\<forall>i<buckets_capacity T. buckets T ! i \<noteq> e"
    and S': "distinct S'" "\<forall>i<length (strings T). S' ! i = strings T ! i"
            "length (strings T) \<le> length S'"
  shows "index_inv (T\<lparr>strings := S', buckets := (buckets T)[idx := e]\<rparr>)"
proof -
  let ?T' = "T\<lparr>strings := S', buckets := (buckets T)[idx := e]\<rparr>"
  let ?cap = "buckets_capacity T"
  from inv have len: "length (buckets T) = ?cap" and cap: "0 < ?cap"
    and valid: "\<forall>i<?cap. buckets T ! i \<noteq> STRING_TABLE_EMPTY \<longrightarrow> buckets T ! i < length (strings T)"
    and inj: "\<forall>i<?cap. \<forall>j<?cap. buckets T ! i \<noteq> STRING_TABLE_EMPTY \<and> buckets T ! i = buckets T ! j \<longrightarrow> i = j"
    and chain: "\<forall>i<?cap. buckets T ! i \<noteq> STRING_TABLE_EMPTY \<longrightarrow>
           reachable T (home T (strings T ! (buckets T ! i))) i"
    by (simp_all add: index_inv_def)
  have home: "\<And>x. home ?T' x = home T x" by (simp add: home_def)
  have nth': "\<And>i. i < ?cap \<Longrightarrow> (buckets T)[idx := e] ! i = (if i = idx then e else buckets T ! i)"
    using len by (simp add: nth_list_update)
  have v': "\<forall>i<?cap. (buckets T)[idx := e] ! i \<noteq> STRING_TABLE_EMPTY \<longrightarrow>
              (buckets T)[idx := e] ! i < length S'"
    using valid e(2) S'(3) by (auto simp add: nth')
  have i': "\<forall>i<?cap. \<forall>j<?cap. (buckets T)[idx := e] ! i \<noteq> STRING_TABLE_EMPTY
              \<and> (buckets T)[idx := e] ! i = (buckets T)[idx := e] ! j \<longrightarrow> i = j"
  proof (intro allI impI)
    fix i j assume ij: "i < ?cap" "j < ?cap" "(buckets T)[idx := e] ! i \<noteq> STRING_TABLE_EMPTY
              \<and> (buckets T)[idx := e] ! i = (buckets T)[idx := e] ! j"
    show "i = j"
    proof (cases "i = idx")
      case True
      with ij fresh show ?thesis by (auto simp add: nth' split: if_splits)
    next
      case False
      with ij fresh inj show ?thesis by (auto simp add: nth' split: if_splits)
    qed
  qed
  have c': "\<forall>i<?cap. (buckets T)[idx := e] ! i \<noteq> STRING_TABLE_EMPTY \<longrightarrow>
              reachable ?T' (home T (S' ! ((buckets T)[idx := e] ! i))) i"
  proof (intro allI impI)
    fix i assume i: "i < ?cap" "(buckets T)[idx := e] ! i \<noteq> STRING_TABLE_EMPTY"
    show "reachable ?T' (home T (S' ! ((buckets T)[idx := e] ! i))) i"
    proof (cases "i = idx")
      case True
      with i e(3) rch reachable_update[OF rch e(1), where S'=S' and idx=idx] show ?thesis by (simp add: nth')
    next
      case False
      with i have ne: "buckets T ! i \<noteq> STRING_TABLE_EMPTY" by (simp add: nth')
      with valid i(1) have "buckets T ! i < length (strings T)" by simp
      with S'(2) have "S' ! (buckets T ! i) = strings T ! (buckets T ! i)" by simp
      moreover from chain i(1) ne have "reachable T (home T (strings T ! (buckets T ! i))) i" by simp
      ultimately show ?thesis using False i(1) reachable_update[OF _ e(1), where T=T and i=i and S'=S' and idx=idx]
        by (simp add: nth')
    qed
  qed
  show ?thesis
    unfolding index_inv_def using cap len S'(1) v' i' c' by (simp add: home)
qed

lemma occupied_insert:
  assumes "idx < length (buckets T)" "buckets T ! idx = STRING_TABLE_EMPTY" "e \<noteq> STRING_TABLE_EMPTY"
  shows "occupied (T\<lparr>strings := S', buckets := (buckets T)[idx := e]\<rparr>) = Suc (occupied T)"
  using assms by (simp add: occupied_def filter_update_length)

lemma bucket_values_insert:
  assumes "idx < length (buckets T)" "buckets T ! idx = STRING_TABLE_EMPTY" "x \<noteq> STRING_TABLE_EMPTY"
  shows "(\<exists>i<length (buckets T). (buckets T)[idx := e] ! i = x)
         \<longleftrightarrow> (\<exists>i<length (buckets T). buckets T ! i = x) \<or> x = e"
proof
  assume "\<exists>i<length (buckets T). (buckets T)[idx := e] ! i = x"
  then obtain i where "i < length (buckets T)" "(buckets T)[idx := e] ! i = x" by blast
  then show "(\<exists>i<length (buckets T). buckets T ! i = x) \<or> x = e"
    by (cases "i = idx") (auto simp add: nth_list_update)
next
  assume "(\<exists>i<length (buckets T). buckets T ! i = x) \<or> x = e"
  then show "\<exists>i<length (buckets T). (buckets T)[idx := e] ! i = x"
  proof
    assume "\<exists>i<length (buckets T). buckets T ! i = x"
    then obtain i where i: "i < length (buckets T)" "buckets T ! i = x" by blast
    with assms have "i \<noteq> idx" by auto
    with i show ?thesis by (auto simp add: nth_list_update)
  next
    assume "x = e"
    with assms(1) show ?thesis by (auto simp add: nth_list_update)
  qed
qed

lemma rehash_ok:
  assumes "index_inv T1"
    and "\<forall>e\<in>set es. e \<noteq> STRING_TABLE_EMPTY \<longrightarrow>
           e < length (strings T1) \<and> (\<forall>i<buckets_capacity T1. buckets T1 ! i \<noteq> e)"
    and "distinct (filter (\<lambda>e. e \<noteq> STRING_TABLE_EMPTY) es)"
    and "occupied T1 + length (filter (\<lambda>e. e \<noteq> STRING_TABLE_EMPTY) es) < buckets_capacity T1"
  shows "\<exists>T2. rehash es T1 = Returned T2 \<and> index_inv T2 \<and> strings T2 = strings T1
      \<and> buckets_capacity T2 = buckets_capacity T1
      \<and> table_initialized T2 = table_initialized T1
      \<and> strings_capacity T2 = strings_capacity T1
      \<and> occupied T2 = occupied T1 + length (filter (\<lambda>e. e \<noteq> STRING_TABLE_EMPTY) es)
      \<and> (\<forall>x. x \<noteq> STRING_TABLE_EMPTY \<longrightarrow>
            ((\<exists>i<buckets_capacity T2. buckets T2 ! i = x)
             \<longleftrightarrow> (\<exists>i<buckets_capacity T1. buckets T1 ! i = x) \<or> x \<in> set es))"
  using assms
proof (induction es arbitrary: T1)
  case Nil
  then show ?case by simp
next
  case (Cons entry rest)
  show ?case
  proof (cases "entry = STRING_TABLE_EMPTY")
    case True
    from Cons.prems have "\<exists>T2. rehash rest T1 = Returned T2 \<and> index_inv T2 \<and> strings T2 = strings T1
      \<and> buckets_capacity T2 = buckets_capacity T1
      \<and> table_initialized T2 = table_initialized T1
      \<and> strings_capacity T2 = strings_capacity T1
      \<and> occupied T2 = occupied T1 + length (filter (\<lambda>e. e \<noteq> STRING_TABLE_EMPTY) rest)
      \<and> (\<forall>x. x \<noteq> STRING_TABLE_EMPTY \<longrightarrow>
            ((\<exists>i<buckets_capacity T2. buckets T2 ! i = x)
             \<longleftrightarrow> (\<exists>i<buckets_capacity T1. buckets T1 ! i = x) \<or> x \<in> set rest))"
      using True by (intro Cons.IH) auto
    then show ?thesis using True by auto
  next
    case False
    let ?s = "strings T1 ! entry"
    let ?cap = "buckets_capacity T1"
    from Cons.prems(1) have len: "length (buckets T1) = ?cap"
      and valid: "\<forall>i<?cap. buckets T1 ! i \<noteq> STRING_TABLE_EMPTY \<longrightarrow> buckets T1 ! i < length (strings T1)"
      and dist: "distinct (strings T1)"
      by (simp_all add: index_inv_def)
    from Cons.prems(2) False have ent: "entry < length (strings T1)"
      "\<forall>i<?cap. buckets T1 ! i \<noteq> entry" by auto
    have ns: "\<not> stored T1 ?s"
    proof
      assume "stored T1 ?s"
      then obtain i where i: "i < ?cap" "buckets T1 ! i \<noteq> STRING_TABLE_EMPTY"
        "strings T1 ! (buckets T1 ! i) = ?s" by (auto simp add: stored_def)
      with valid have "buckets T1 ! i < length (strings T1)" by simp
      with i(3) ent(1) dist have "buckets T1 ! i = entry" by (simp add: nth_eq_iff_index_eq)
      with ent(2) i(1) show False by simp
    qed
    have "occupied T1 < length (buckets T1)" using Cons.prems(4) len by simp
    from exists_empty[OF this] len have "\<exists>i<?cap. buckets T1 ! i = STRING_TABLE_EMPTY" by simp
    from find_bucket_result[OF Cons.prems(1) this, of ?s] ns obtain idx where
      idx: "idx < ?cap" "find_bucket T1 ?s (fnv1a_hash ?s) = Returned (idx, False)"
        "buckets T1 ! idx = STRING_TABLE_EMPTY" "reachable T1 (home T1 ?s) idx"
      by auto
    let ?T' = "T1\<lparr>buckets := (buckets T1)[idx := entry]\<rparr>"
    have eq: "?T' = T1\<lparr>strings := strings T1, buckets := (buckets T1)[idx := entry]\<rparr>" by simp
    have inv': "index_inv ?T'"
      unfolding eq using Cons.prems(1) idx(1,3,4) False ent dist
      by (intro index_inv_insert) auto
    have occ': "occupied ?T' = Suc (occupied T1)"
      unfolding eq using idx(1,3) False len by (intro occupied_insert) auto
    have nin: "entry \<notin> set rest" using Cons.prems(3) False by auto
    have p2: "\<forall>e\<in>set rest. e \<noteq> STRING_TABLE_EMPTY \<longrightarrow>
           e < length (strings ?T') \<and> (\<forall>i<buckets_capacity ?T'. buckets ?T' ! i \<noteq> e)"
    proof (intro ballI impI)
      fix e assume e: "e \<in> set rest" "e \<noteq> STRING_TABLE_EMPTY"
      with Cons.prems(2) have "e < length (strings T1)" "\<forall>i<?cap. buckets T1 ! i \<noteq> e" by auto
      moreover from e nin have "e \<noteq> entry" by auto
      ultimately have "e < length (strings T1)"
        "\<And>i. i < ?cap \<Longrightarrow> (buckets T1)[idx := entry] ! i \<noteq> e"
        using len idx(1) by (simp_all add: nth_list_update)
      then show "e < length (strings ?T') \<and> (\<forall>i<buckets_capacity ?T'. buckets ?T' ! i \<noteq> e)"
        by simp
    qed
    have p3: "distinct (filter (\<lambda>e. e \<noteq> STRING_TABLE_EMPTY) rest)"
      using Cons.prems(3) False by simp
    have p4: "occupied ?T' + length (filter (\<lambda>e. e \<noteq> STRING_TABLE_EMPTY) rest) < buckets_capacity ?T'"
      using Cons.prems(4) False occ' by simp
    from Cons.IH[OF inv' p2 p3 p4] obtain T2 where
      T2: "rehash rest ?T' = Returned T2" "index_inv T2" "strings T2 = strings ?T'"
        "buckets_capacity T2 = buckets_capacity ?T'"
        "table_initialized T2 = table_initialized ?T'"
        "strings_capacity T2 = strings_capacity ?T'"
        "occupied T2 = occupied ?T' + length (filter (\<lambda>e. e \<noteq> STRING_TABLE_EMPTY) rest)"
        "\<forall>x. x \<noteq> STRING_TABLE_EMPTY \<longrightarrow>
            ((\<exists>i<buckets_capacity T2. buckets T2 ! i = x)
             \<longleftrightarrow> (\<exists>i<buckets_capacity ?T'. buckets ?T' ! i = x) \<or> x \<in> set rest)"
      by blast
    have run: "rehash (entry # rest) T1 = Returned T2"
      using False idx(2) T2(1) by (simp add: obind_def Let_def)
    have vals: "\<forall>x. x \<noteq> STRING_TABLE_EMPTY \<longrightarrow>
            ((\<exists>i<buckets_capacity T2. buckets T2 ! i = x)
             \<longleftrightarrow> (\<exists>i<?cap. buckets T1 ! i = x) \<or> x \<in> set (entry # rest))"
    proof (intro allI impI)
      fix x assume x: "x \<noteq> STRING_TABLE_EMPTY"
      have "(\<exists>i<length (buckets T1). (buckets T1)[idx := entry] ! i = x)
         \<longleftrightarrow> (\<exists>i<length (buckets T1). buckets T1 ! i = x) \<or> x = entry"
        using idx(1,3) len x by (intro bucket_values_insert) auto
      with T2(8) x len show "(\<exists>i<buckets_capacity T2. buckets T2 ! i = x)
             \<longleftrightarrow> (\<exists>i<?cap. buckets T1 ! i = x) \<or> x \<in> set (entry # rest)"
        by auto
    qed
    show ?thesis
      using run T2(2-7) occ' False vals by (intro exI[of _ T2]) simp
  qed
qed

lemma stored_iff:
  assumes "table_inv T"
  shows "stored T s \<longleftrightarrow> s \<in> set (strings T)"
proof
  assume "stored T s"
  then obtain i where i: "i < buckets_capacity T" "buckets T ! i \<noteq> STRING_TABLE_EMPTY"
    "strings T ! (buckets T ! i) = s" by (auto simp add: stored_def)
  with assms have "buckets T ! i < length (strings T)" by (auto simp add: table_inv_def index_inv_def)
  with i(3) show "s \<in> set (strings T)" by (auto simp add: in_set_conv_nth)
next
  assume "s \<in> set (strings T)"
  then obtain e where e: "e < length (strings T)" "strings T ! e = s"
    by (auto simp add: in_set_conv_nth)
  with assms obtain i where i: "i < buckets_capacity T" "buckets T ! i = e"
    by (auto simp add: table_inv_def strings_count_def)
  from assms e(1) have "e \<noteq> STRING_TABLE_EMPTY"
    by (auto simp add: table_inv_def strings_count_def)
  with i e(2) show "stored T s" by (auto simp add: stored_def)
qed

lemma resize_ok:
  assumes "table_inv T"
  shows "\<exists>T'. resize_buckets True T = Returned T' \<and> table_inv T' \<and> strings T' = strings T
     \<and> buckets_capacity T' = 2 * buckets_capacity T \<and> strings_capacity T' = strings_capacity T"
proof -
  let ?cap = "buckets_capacity T"
  let ?n = "length (strings T)"
  let ?T1 = "T\<lparr>buckets := replicate (?cap * 2) STRING_TABLE_EMPTY, buckets_capacity := ?cap * 2\<rparr>"
  from assms have inv: "index_inv T" and occ: "occupied T = ?n" and lt: "?n < ?cap"
    and le: "?n \<le> STRING_TABLE_EMPTY" and all: "\<forall>e < ?n. \<exists>i < ?cap. buckets T ! i = e"
    and ini: "table_initialized T"
    by (simp_all add: table_inv_def strings_count_def)
  from inv have len: "length (buckets T) = ?cap" and cap: "0 < ?cap"
    and valid: "\<forall>i<?cap. buckets T ! i \<noteq> STRING_TABLE_EMPTY \<longrightarrow> buckets T ! i < ?n"
    and inj: "\<forall>i<?cap. \<forall>j<?cap. buckets T ! i \<noteq> STRING_TABLE_EMPTY \<and> buckets T ! i = buckets T ! j \<longrightarrow> i = j"
    and dist: "distinct (strings T)"
    by (simp_all add: index_inv_def)
  have inv1: "index_inv ?T1" using cap dist by (simp add: index_inv_def)
  have occ1: "occupied ?T1 = 0" by (simp add: occupied_def)
  have p2: "\<forall>e\<in>set (buckets T). e \<noteq> STRING_TABLE_EMPTY \<longrightarrow>
           e < length (strings ?T1) \<and> (\<forall>i<buckets_capacity ?T1. buckets ?T1 ! i \<noteq> e)"
    using valid len by (auto simp add: in_set_conv_nth)
  have p3: "distinct (filter (\<lambda>e. e \<noteq> STRING_TABLE_EMPTY) (buckets T))"
    using inj len by (intro distinct_filter_inj) auto
  have p4: "occupied ?T1 + length (filter (\<lambda>e. e \<noteq> STRING_TABLE_EMPTY) (buckets T))
            < buckets_capacity ?T1"
    using occ1 occ lt by (simp add: occupied_def)
  from rehash_ok[OF inv1 p2 p3 p4] obtain T2 where
    T2: "rehash (buckets T) ?T1 = Returned T2" "index_inv T2" "strings T2 = strings ?T1"
        "buckets_capacity T2 = buckets_capacity ?T1"
        "table_initialized T2 = table_initialized ?T1"
        "strings_capacity T2 = strings_capacity ?T1"
        "occupied T2 = occupied ?T1 + length (filter (\<lambda>e. e \<noteq> STRING_TABLE_EMPTY) (buckets T))"
        "\<forall>x. x \<noteq> STRING_TABLE_EMPTY \<longrightarrow>
            ((\<exists>i<buckets_capacity T2. buckets T2 ! i = x)
             \<longleftrightarrow> (\<exists>i<buckets_capacity ?T1. buckets ?T1 ! i = x) \<or> x \<in> set (buckets T))"
    by blast
  have run: "resize_buckets True T = Returned T2"
    using T2(1) len by (simp add: resize_buckets_def Let_def)
  have all2: "\<forall>e < ?n. \<exists>i < buckets_capacity T2. buckets T2 ! i = e"
  proof (intro allI impI)
    fix e assume e: "e < ?n"
    with le have ne: "e \<noteq> STRING_TABLE_EMPTY" by simp
    from all e obtain i where "i < ?cap" "buckets T ! i = e" by blast
    with len have "e \<in> set (buckets T)" by (auto simp add: in_set_conv_nth)
    with T2(8) ne show "\<exists>i < buckets_capacity T2. buckets T2 ! i = e" by blast
  qed
  have "table_inv T2"
    unfolding table_inv_def strings_count_def
    using T2(2-7) ini occ1 occ lt le all2 by (simp add: occupied_def)
  with run T2(3,4,6) show ?thesis by (intro exI[of _ T2]) simp
qed

lemma index_inv_capacity: "index_inv (T\<lparr>strings_capacity := c\<rparr>) = index_inv T"
  by (simp add: index_inv_def reachable_def home_def)

lemma table_inv_empty_bucket:
  assumes "table_inv T"
  shows "\<exists>i<buckets_capacity T. buckets T ! i = STRING_TABLE_EMPTY"
proof -
  from assms have "occupied T < length (buckets T)"
    by (simp add: table_inv_def index_inv_def)
  from exists_empty[OF this] assms show ?thesis by (simp add: table_inv_def index_inv_def)
qed

lemma insert_table_inv:
  assumes inv: "table_inv T" and ns: "s \<notin> set (strings T)"
    and b: "bucket < buckets_capacity T" "buckets T ! bucket = STRING_TABLE_EMPTY"
           "reachable T (home T s) bucket"
    and room: "strings_count T + 1 < buckets_capacity T" "strings_count T < STRING_TABLE_EMPTY"
  shows "table_inv (T\<lparr>strings_capacity := c, strings := strings T @ [s],
                      buckets := (buckets T)[bucket := strings_count T]\<rparr>)"
proof -
  let ?n = "length (strings T)"
  let ?T0 = "T\<lparr>strings_capacity := c\<rparr>"
  let ?T' = "?T0\<lparr>strings := strings T @ [s], buckets := (buckets ?T0)[bucket := ?n]\<rparr>"
  from inv have iinv: "index_inv T" and occ: "occupied T = ?n"
    and all: "\<forall>e < ?n. \<exists>i < buckets_capacity T. buckets T ! i = e"
    and ini: "table_initialized T"
    by (simp_all add: table_inv_def strings_count_def)
  from iinv have len: "length (buckets T) = buckets_capacity T"
    and valid: "\<forall>i<buckets_capacity T. buckets T ! i \<noteq> STRING_TABLE_EMPTY \<longrightarrow> buckets T ! i < ?n"
    and dist: "distinct (strings T)"
    by (simp_all add: index_inv_def)
  have nE: "?n \<noteq> STRING_TABLE_EMPTY" using room(2) by (simp add: strings_count_def)
  have fresh: "\<forall>i<buckets_capacity ?T0. buckets ?T0 ! i \<noteq> ?n"
    using valid nE by auto
  have r0: "reachable ?T0 (home ?T0 s) bucket"
    using b(3) by (simp add: reachable_def home_def)
  have i': "index_inv ?T'"
    using iinv b(1,2) r0 nE fresh dist ns
    by (intro index_inv_insert) (simp_all add: index_inv_capacity nth_append)
  have o': "occupied ?T' = Suc (occupied ?T0)"
    using b(1,2) nE len by (intro occupied_insert) simp_all
  have a': "\<forall>e < Suc ?n. \<exists>i < buckets_capacity T. (buckets T)[bucket := ?n] ! i = e"
  proof (intro allI impI)
    fix e assume "e < Suc ?n"
    show "\<exists>i < buckets_capacity T. (buckets T)[bucket := ?n] ! i = e"
    proof (cases "e = ?n")
      case True
      with b(1) len show ?thesis by (auto simp add: nth_list_update)
    next
      case False
      with \<open>e < Suc ?n\<close> have "e < ?n" by simp
      with all obtain i where i: "i < buckets_capacity T" "buckets T ! i = e" by blast
      with b(2) \<open>e < ?n\<close> room(2) have "i \<noteq> bucket" by (auto simp add: strings_count_def)
      with i b(1) len show ?thesis by (auto simp add: nth_list_update)
    qed
  qed
  have "table_inv ?T'"
    unfolding table_inv_def
    using i' o' occ ini room a' by (simp add: strings_count_def occupied_def)
  then show ?thesis by (simp add: strings_count_def)
qed

lemma store_string_ok:
  assumes inv: "table_inv T" and ns: "s \<notin> set (strings T)"
    and b: "bucket < buckets_capacity T" "buckets T ! bucket = STRING_TABLE_EMPTY"
           "reachable T (home T s) bucket"
    and room: "strings_count T + 1 < buckets_capacity T" "strings_count T < STRING_TABLE_EMPTY"
  shows "\<exists>T'. table_inv T' \<and> strings T' = strings T @ [s]
      \<and> store_string a s bucket T
        = (if (\<not> strings_count T < strings_capacity T \<and> \<not> strings_realloc_ok a) \<or> \<not> strdup_ok a
           then Aborted else Returned (Some (strings_count T), T'))"
proof -
  let ?new = "if strings_capacity T * 2 = 0 then 256 else strings_capacity T * 2"
  let ?c = "if strings_count T < strings_capacity T then strings_capacity T else ?new"
  let ?T' = "T\<lparr>strings_capacity := ?c, strings := strings T @ [s],
               buckets := (buckets T)[bucket := strings_count T]\<rparr>"
  have t: "table_inv ?T'" using assms by (rule insert_table_inv)
  have "store_string a s bucket T
        = (if (\<not> strings_count T < strings_capacity T \<and> \<not> strings_realloc_ok a) \<or> \<not> strdup_ok a
           then Aborted else Returned (Some (strings_count T), ?T'))"
    by (simp add: store_string_def ensure_strings_capacity_def obind_def Let_def strings_count_def)
  with t show ?thesis by (intro exI[of _ ?T']) simp
qed

lemma string_intern_found:
  assumes inv: "table_inv T" and s: "s \<in> set (strings T)"
  shows "\<exists>k<length (strings T). strings T ! k = s
            \<and> string_intern a (Some s) T = Returned (Some k, T)"
proof -
  from inv have iinv: "index_inv T" and ini: "table_initialized T"
    by (simp_all add: table_inv_def)
  from s inv have st: "stored T s" by (simp add: stored_iff)
  from find_bucket_result[OF iinv table_inv_empty_bucket[OF inv], of s] st obtain idx where
    idx: "idx < buckets_capacity T" "find_bucket T s (fnv1a_hash s) = Returned (idx, True)"
      "buckets T ! idx \<noteq> STRING_TABLE_EMPTY" "strings T ! (buckets T ! idx) = s"
    by auto
  from iinv idx(1,3) have "buckets T ! idx < length (strings T)" by (simp add: index_inv_def)
  moreover have "string_intern a (Some s) T = Returned (Some (buckets T ! idx), T)"
    using ini idx(2) by (simp add: string_intern_def obind_def)
  ultimately show ?thesis using idx(4) by blast
qed

lemma string_intern_new:
  assumes inv: "table_inv T" and ns: "s \<notin> set (strings T)"
    and room: "strings_count T < STRING_TABLE_EMPTY"
  shows "\<exists>T'. table_inv T' \<and> strings T' = strings T @ [s]
      \<and> string_intern a (Some s) T
        = (if (load_exceeded T \<and> \<not> resize_malloc_ok a)
              \<or> (\<not> strings_count T < strings_capacity T \<and> \<not> strings_realloc_ok a)
              \<or> \<not> strdup_ok a
           then Aborted else Returned (Some (strings_count T), T'))"
proof -
  from inv have iinv: "index_inv T" and ini: "table_initialized T"
    and lt: "strings_count T < buckets_capacity T"
    by (simp_all add: table_inv_def)
  from ns inv have st: "\<not> stored T s" by (simp add: stored_iff)
  from find_bucket_result[OF iinv table_inv_empty_bucket[OF inv], of s] st obtain idx where
    idx: "idx < buckets_capacity T" "find_bucket T s (fnv1a_hash s) = Returned (idx, False)"
      "buckets T ! idx = STRING_TABLE_EMPTY" "reachable T (home T s) idx"
    by auto
  from resize_ok[OF inv] obtain T1 where
    T1: "resize_buckets True T = Returned T1" "table_inv T1" "strings T1 = strings T"
      "buckets_capacity T1 = 2 * buckets_capacity T" "strings_capacity T1 = strings_capacity T"
    by blast
  from T1(2) have iinv1: "index_inv T1" by (simp add: table_inv_def)
  from ns T1(2,3) have st1: "\<not> stored T1 s" by (simp add: stored_iff)
  from find_bucket_result[OF iinv1 table_inv_empty_bucket[OF T1(2)], of s] st1 obtain idx1 where
    idx1: "idx1 < buckets_capacity T1" "find_bucket T1 s (fnv1a_hash s) = Returned (idx1, False)"
      "buckets T1 ! idx1 = STRING_TABLE_EMPTY" "reachable T1 (home T1 s) idx1"
    by auto
  have c1: "strings_count T1 = strings_count T" using T1(3) by (simp add: strings_count_def)
  show ?thesis
  proof (cases "load_exceeded T")
    case False
    then have "strings_count T + 1 < buckets_capacity T"
      using lt by (simp add: load_exceeded_def)
    from store_string_ok[OF inv ns idx(1,3,4) this room, of a] obtain T' where
      T': "table_inv T'" "strings T' = strings T @ [s]"
        "store_string a s idx T
        = (if (\<not> strings_count T < strings_capacity T \<and> \<not> strings_realloc_ok a) \<or> \<not> strdup_ok a
           then Aborted else Returned (Some (strings_count T), T'))"
      by blast
    have "string_intern a (Some s) T = store_string a s idx T"
      using ini idx(2) False by (simp add: string_intern_def obind_def)
    with T' False show ?thesis by (intro exI[of _ T']) simp
  next
    case True
    have r1: "strings_count T1 + 1 < buckets_capacity T1" using lt c1 T1(4) by simp
    have ns1: "s \<notin> set (strings T1)" using ns T1(3) by simp
    have room1: "strings_count T1 < STRING_TABLE_EMPTY" using room c1 by simp
    from store_string_ok[OF T1(2) ns1 idx1(1,3,4) r1 room1, of a] obtain T' where
      T': "table_inv T'" "strings T' = strings T1 @ [s]"
        "store_string a s idx1 T1
        = (if (\<not> strings_count T1 < strings_capacity T1 \<and> \<not> strings_realloc_ok a) \<or> \<not> strdup_ok a
           then Aborted else Returned (Some (strings_count T1), T'))"
      by blast
    show ?thesis
    proof (cases "resize_malloc_ok a")
      case False
      have "string_intern a (Some s) T = Aborted"
        using ini idx(2) True False
        by (simp add: string_intern_def obind_def resize_buckets_def Let_def)
      with T'(1,2) T1(3) True False show ?thesis by (intro exI[of _ T']) simp
    next
      case ok: True
      have "string_intern a (Some s) T = store_string a s idx1 T1"
        using ini idx(2) True ok T1(1) idx1(2) by (simp add: string_intern_def obind_def)
      with T' T1(3,5) c1 True ok show ?thesis by (intro exI[of _ T']) simp
    qed
  qed
qed

lemma string_intern_step:
  assumes inv: "table_inv T" and r: "string_intern a sp T = Returned (h, T')"
    and bound: "strings_count T' \<le> STRING_TABLE_EMPTY"
  shows "table_inv T' \<and> (\<exists>ys. strings T' = strings T @ ys)
       \<and> (case sp of None \<Rightarrow> h = None
           | Some s \<Rightarrow> \<exists>k. h = Some k \<and> k < length (strings T') \<and> strings T' ! k = s)"
proof (cases sp)
  case None
  with r inv show ?thesis by (simp add: string_intern_def)
next
  case (Some s)
  show ?thesis
  proof (cases "s \<in> set (strings T)")
    case True
    from string_intern_found[OF inv True, of a] r Some inv show ?thesis by auto
  next
    case False
    have bad: "\<not> strings_count T < STRING_TABLE_EMPTY \<Longrightarrow> False"
    proof -
      assume "\<not> strings_count T < STRING_TABLE_EMPTY"
      with inv have full: "strings_count T = STRING_TABLE_EMPTY" by (simp add: table_inv_def)
      from inv have iinv: "index_inv T" and ini: "table_initialized T"
        by (simp_all add: table_inv_def)
      from False inv have st: "\<not> stored T s" by (simp add: stored_iff)
      from find_bucket_result[OF iinv table_inv_empty_bucket[OF inv], of s] st obtain idx where
        idx: "find_bucket T s (fnv1a_hash s) = Returned (idx, False)" by auto
      have inc: "\<And>b T2 hh TT. store_string a s b T2 = Returned (hh, TT) \<Longrightarrow>
                  strings_count TT = Suc (strings_count T2)"
        by (auto simp add: store_string_def ensure_strings_capacity_def obind_def Let_def
            strings_count_def split: if_splits)
      have res: "\<And>T1. resize_buckets (resize_malloc_ok a) T = Returned T1 \<Longrightarrow>
                  strings_count T1 = strings_count T"
      proof -
        fix T1 assume a1: "resize_buckets (resize_malloc_ok a) T = Returned T1"
        then have "resize_malloc_ok a" by (auto simp add: resize_buckets_def Let_def split: if_splits)
        with a1 resize_ok[OF inv] show "strings_count T1 = strings_count T"
          by (auto simp add: strings_count_def)
      qed
      from r Some ini idx have "strings_count T' = Suc (strings_count T)"
        by (auto simp add: string_intern_def obind_def split: if_splits outcome.splits prod.splits
            dest!: inc res)
      with full bound show False by simp
    qed
    then have room: "strings_count T < STRING_TABLE_EMPTY" by blast
    from string_intern_new[OF inv False room, of a] r Some show ?thesis
      by (auto simp add: strings_count_def nth_append split: if_splits)
  qed
qed

lemma rehash_strings: "rehash es T = Returned T' \<Longrightarrow> strings T' = strings T"
proof (induction es arbitrary: T)
  case Nil
  then show ?case by simp
next
  case (Cons e es)
  show ?case
  proof (cases "e = STRING_TABLE_EMPTY")
    case True
    with Cons show ?thesis by simp
  next
    case False
    with Cons.prems obtain b f where
      "rehash es (T\<lparr>buckets := (buckets T)[b := e]\<rparr>) = Returned T'"
      by (auto simp add: obind_def Let_def split: outcome.splits)
    from Cons.IH[OF this] show ?thesis by simp
  qed
qed

lemma string_intern_count_mono:
  assumes "string_intern a sp T = Returned (h, T')"
  shows "strings_count T \<le> strings_count T'"
proof -
  have rs: "\<And>ok T1. resize_buckets ok T = Returned T1 \<Longrightarrow> strings T1 = strings T"
    by (auto simp add: resize_buckets_def Let_def split: if_splits dest!: rehash_strings)
  have ss: "\<And>b T2 hh TT. store_string a s b T2 = Returned (hh, TT) \<Longrightarrow>
              strings_count T2 \<le> strings_count TT" for s
    by (auto simp add: store_string_def ensure_strings_capacity_def obind_def Let_def
        strings_count_def split: if_splits)
  show ?thesis
  proof (cases sp)
    case None
    with assms show ?thesis by (simp add: string_intern_def)
  next
    case (Some s)
    from assms Some obtain bucket found where
      fb: "find_bucket T s (fnv1a_hash s) = Returned (bucket, found)"
      by (auto simp add: string_intern_def obind_def Let_def split: if_splits outcome.splits)
    show ?thesis
    proof (cases found)
      case True
      with assms Some fb show ?thesis
        by (auto simp add: string_intern_def obind_def Let_def split: if_splits)
    next
      case False
      let ?pre = "if load_exceeded T then
                         obind (resize_buckets (resize_malloc_ok a) T) (\<lambda>T1.
                           obind (find_bucket T1 s (fnv1a_hash s)) (\<lambda>(bucket1, found1).
                             if found1 then Aborted else Returned (bucket1, T1)))
                       else Returned (bucket, T)"
      from assms Some fb False have
        "obind ?pre (\<lambda>(bucket2, T2). store_string a s bucket2 T2) = Returned (h, T')"
        by (auto simp add: string_intern_def obind_def Let_def split: if_splits)
      then obtain b2 T2 where pre: "?pre = Returned (b2, T2)"
        and st: "store_string a s b2 T2 = Returned (h, T')"
        by (cases ?pre) (auto simp add: obind_def)
      from pre have "strings T2 = strings T"
        by (auto simp add: obind_def split: if_splits outcome.splits prod.splits dest!: rs)
      with ss[OF st] show ?thesis by (simp add: strings_count_def)
    qed
  qed
qed

lemma intern_all_count_mono:
  "intern_all xs T = Returned (hs, T') \<Longrightarrow> strings_count T \<le> strings_count T'"
proof (induction xs arbitrary: T hs)
  case Nil
  then show ?case by simp
next
  case (Cons x xs)
  obtain a sp where x: "x = (a, sp)" by (cases x)
  from Cons.prems x obtain h T1 hs1 where
    s: "string_intern a sp T = Returned (h, T1)" and r: "intern_all xs T1 = Returned (hs1, T')"
    by (auto simp add: obind_def split: outcome.splits prod.splits)
  from string_intern_count_mono[OF s] Cons.IH[OF r] show ?case by simp
qed

lemma intern_all_inv:
  assumes "table_inv T" "intern_all xs T = Returned (hs, T')"
    "strings_count T' \<le> STRING_TABLE_EMPTY"
  shows "table_inv T' \<and> (\<exists>ys. strings T' = strings T @ ys) \<and> length hs = length xs
       \<and> (\<forall>i<length xs. case snd (xs ! i) of None \<Rightarrow> hs ! i = None
              | Some s \<Rightarrow> \<exists>k. hs ! i = Some k \<and> k < length (strings T') \<and> strings T' ! k = s)"
  using assms
proof (induction xs arbitrary: T hs)
  case Nil
  then show ?case by simp
next
  case (Cons x xs)
  obtain a sp where x: "x = (a, sp)" by (cases x)
  from Cons.prems(2) x obtain h T1 hs1 where
    s: "string_intern a sp T = Returned (h, T1)" and r: "intern_all xs T1 = Returned (hs1, T')"
    and hs: "hs = h # hs1"
    by (auto simp add: obind_def split: outcome.splits prod.splits)
  from intern_all_count_mono[OF r] Cons.prems(3) have b1: "strings_count T1 \<le> STRING_TABLE_EMPTY"
    by simp
  from string_intern_step[OF Cons.prems(1) s b1] obtain ys1 where
    st: "table_inv T1" "strings T1 = strings T @ ys1"
      "case sp of None \<Rightarrow> h = None
       | Some s \<Rightarrow> \<exists>k. h = Some k \<and> k < length (strings T1) \<and> strings T1 ! k = s"
    by blast
  from Cons.IH[OF st(1) r Cons.prems(3)] obtain ys2 where
    ih: "table_inv T'" "strings T' = strings T1 @ ys2" "length hs1 = length xs"
      "\<forall>i<length xs. case snd (xs ! i) of None \<Rightarrow> hs1 ! i = None
              | Some s \<Rightarrow> \<exists>k. hs1 ! i = Some k \<and> k < length (strings T') \<and> strings T' ! k = s"
    by blast
  have head: "case sp of None \<Rightarrow> h = None
       | Some s \<Rightarrow> \<exists>k. h = Some k \<and> k < length (strings T') \<and> strings T' ! k = s"
    using st(3) ih(2) by (auto simp add: nth_append split: option.splits)
  have "\<forall>i<length (x # xs). case snd ((x # xs) ! i) of None \<Rightarrow> hs ! i = None
              | Some s \<Rightarrow> \<exists>k. hs ! i = Some k \<and> k < length (strings T') \<and> strings T' ! k = s"
  proof (intro allI impI)
    fix i assume "i < length (x # xs)"
    then show "case snd ((x # xs) ! i) of None \<Rightarrow> hs ! i = None
              | Some s \<Rightarrow> \<exists>k. hs ! i = Some k \<and> k < length (strings T') \<and> strings T' ! k = s"
      using head ih(4) x hs by (cases i) (auto split: option.splits)
  qed
  with ih(1,2,3) st(2) hs show ?case by auto
qed

lemma handles_eq_iff:
  assumes "distinct S"
    and "case sp1 of None \<Rightarrow> h1 = None
         | Some s \<Rightarrow> \<exists>k. h1 = Some k \<and> k < length S \<and> S ! k = s"
    and "case sp2 of None \<Rightarrow> h2 = None
         | Some s \<Rightarrow> \<exists>k. h2 = Some k \<and> k < length S \<and> S ! k = s"
  shows "(h1 = h2) \<longleftrightarrow> (sp1 = sp2)"
  using assms by (auto simp add: nth_eq_iff_index_eq split: option.splits)

lemma init_table_inv:
  assumes "\<not> table_initialized T0" "string_table_init a0 n T0 = Returned T"
  shows "table_inv T \<and> strings T = []"
proof -
  from assms obtain r where r: "double_until 1 (if n = 0 then STRING_TABLE_INITIAL_CAPACITY else n) = Some r"
    and T: "T = T0\<lparr>buckets := replicate r STRING_TABLE_EMPTY, buckets_capacity := r,
                  strings_capacity := 256, strings := [], table_initialized := True\<rparr>"
    by (auto simp add: string_table_init_def Let_def split: option.splits if_splits)
  from double_until_Some[of 1 "if n = 0 then STRING_TABLE_INITIAL_CAPACITY else n"] r
  have "0 < r" by auto
  then show ?thesis
    by (simp add: T table_inv_def index_inv_def occupied_def strings_count_def)
qed

lemma init_total:
  assumes "buckets_malloc_ok a0" "strings_malloc_ok a0" "mutex_init_ok a0"
  shows "\<exists>T. string_table_init a0 n T0 = Returned T"
proof -
  from double_until_Some[of 1 "if n = 0 then STRING_TABLE_INITIAL_CAPACITY else n"]
  obtain r where "double_until 1 (if n = 0 then STRING_TABLE_INITIAL_CAPACITY else n) = Some r"
    by auto
  with assms show ?thesis
    by (simp add: string_table_init_def Let_def)
qed

lemma string_intern_total:
  assumes "table_inv T" "strings_count T < STRING_TABLE_EMPTY"
    "resize_malloc_ok a" "strings_realloc_ok a" "strdup_ok a"
  shows "\<exists>h T'. string_intern a sp T = Returned (h, T') \<and> strings_count T' \<le> Suc (strings_count T)"
proof (cases sp)
  case None
  then show ?thesis by (simp add: string_intern_def)
next
  case (Some s)
  show ?thesis
  proof (cases "s \<in> set (strings T)")
    case True
    from string_intern_found[OF assms(1) True, of a] Some show ?thesis by auto
  next
    case False
    from string_intern_new[OF assms(1) False assms(2), of a] assms(3-5) Some show ?thesis
      by (auto simp add: strings_count_def)
  qed
qed

lemma intern_all_total:
  assumes "table_inv T" "strings_count T + length xs \<le> STRING_TABLE_EMPTY"
    "\<forall>x\<in>set xs. resize_malloc_ok (fst x) \<and> strings_realloc_ok (fst x) \<and> strdup_ok (fst x)"
  shows "\<exists>hs T'. intern_all xs T = Returned (hs, T')
            \<and> strings_count T' \<le> strings_count T + length xs"
  using assms
proof (induction xs arbitrary: T)
  case Nil
  then show ?case by simp
next
  case (Cons x xs)
  obtain a sp where x: "x = (a, sp)" by (cases x)
  from Cons.prems x have ok: "resize_malloc_ok a" "strings_realloc_ok a" "strdup_ok a"
    and lt: "strings_count T < STRING_TABLE_EMPTY" by auto
  from string_intern_total[OF Cons.prems(1) lt ok, of sp] obtain h T1 where
    s: "string_intern a sp T = Returned (h, T1)" "strings_count T1 \<le> Suc (strings_count T)"
    by blast
  from s(2) Cons.prems(2) have b1: "strings_count T1 \<le> STRING_TABLE_EMPTY" by simp
  from string_intern_step[OF Cons.prems(1) s(1) b1] have i1: "table_inv T1" by simp
  have "strings_count T1 + length xs \<le> STRING_TABLE_EMPTY" using s(2) Cons.prems(2) by simp
  from Cons.IH[OF i1 this] Cons.prems(3) obtain hs1 T' where
    "intern_all xs T1 = Returned (hs1, T')" "strings_count T' \<le> strings_count T1 + length xs"
    by auto
  with s x show ?case by (simp add: obind_def)
qed

lemma double_until_below:
  "0 < c \<Longrightarrow> double_until c n = Some r \<Longrightarrow> r < max (c + 1) (2 * n)"
proof (induction "n - c" arbitrary: c rule: less_induct)
  case less
  show ?case
  proof (cases "c < n")
    case True
    have m: "n - c * 2 < n - c" using True less.prems by simp
    from less.prems(2) True have "double_until (c * 2) n = Some r" by (simp add: double_until_step)
    from less.hyps[OF m _ this] less.prems(1) have "r < max (c * 2 + 1) (2 * n)" by simp
    with True show ?thesis by simp
  next
    case False
    with less.prems(2) show ?thesis by (simp add: double_until_done)
  qed
qed

lemma rehash_capacity:
  "rehash es T = Returned T' \<Longrightarrow>
   buckets_capacity T' = buckets_capacity T \<and> strings_capacity T' = strings_capacity T"
proof (induction es arbitrary: T)
  case Nil
  then show ?case by simp
next
  case (Cons e es)
  show ?case
  proof (cases "e = STRING_TABLE_EMPTY")
    case True
    with Cons show ?thesis by simp
  next
    case False
    with Cons.prems obtain b f where
      "rehash es (T\<lparr>buckets := (buckets T)[b := e]\<rparr>) = Returned T'"
      by (auto simp add: obind_def Let_def split: outcome.splits)
    from Cons.IH[OF this] show ?thesis by simp
  qed
qed

lemma string_intern_sizes:
  assumes "string_intern a sp T = Returned (h, T')" "sizes_bounded c T"
  shows "sizes_bounded c T'"
proof -
  have rs: "\<And>ok T1. resize_buckets ok T = Returned T1 \<Longrightarrow>
              strings T1 = strings T \<and> buckets_capacity T1 = 2 * buckets_capacity T
              \<and> strings_capacity T1 = strings_capacity T"
    by (auto simp add: resize_buckets_def Let_def split: if_splits
        dest: rehash_strings rehash_capacity)
  have ss: "\<And>b T2 hh TT. store_string a s b T2 = Returned (hh, TT) \<Longrightarrow>
              strings_count TT = Suc (strings_count T2)
              \<and> buckets_capacity TT = buckets_capacity T2
              \<and> strings_capacity TT
                  \<le> max (strings_capacity T2) (max 256 (2 * strings_count T2))" for s
    by (auto simp add: store_string_def ensure_strings_capacity_def obind_def Let_def
        strings_count_def split: if_splits)
  show ?thesis
  proof (cases sp)
    case None
    with assms show ?thesis by (simp add: string_intern_def)
  next
    case (Some s)
    from assms Some obtain bucket found where
      fb: "find_bucket T s (fnv1a_hash s) = Returned (bucket, found)"
      by (auto simp add: string_intern_def obind_def Let_def split: if_splits outcome.splits)
    show ?thesis
    proof (cases found)
      case True
      with assms Some fb show ?thesis
        by (auto simp add: string_intern_def obind_def Let_def split: if_splits)
    next
      case False
      let ?pre = "if load_exceeded T then
                         obind (resize_buckets (resize_malloc_ok a) T) (\<lambda>T1.
                           obind (find_bucket T1 s (fnv1a_hash s)) (\<lambda>(bucket1, found1).
                             if found1 then Aborted else Returned (bucket1, T1)))
                       else Returned (bucket, T)"
      from assms Some fb False have
        "obind ?pre (\<lambda>(bucket2, T2). store_string a s bucket2 T2) = Returned (h, T')"
        by (auto simp add: string_intern_def obind_def Let_def split: if_splits)
      then obtain b2 T2 where pre: "?pre = Returned (b2, T2)"
        and st: "store_string a s b2 T2 = Returned (h, T')"
        by (cases ?pre) (auto simp add: obind_def)
      from pre have p: "strings T2 = strings T \<and> strings_capacity T2 = strings_capacity T
          \<and> (if load_exceeded T then buckets_capacity T2 = 2 * buckets_capacity T
              else buckets_capacity T2 = buckets_capacity T)"
        by (auto simp add: obind_def split: if_splits outcome.splits prod.splits dest!: rs)
      from p have c2: "strings_count T2 = strings_count T" by (simp add: strings_count_def)
      from ss[OF st] c2 p assms(2) show ?thesis
        by (auto simp add: sizes_bounded_def load_exceeded_def split: if_splits)
    qed
  qed
qed

lemma intern_all_sizes:
  "intern_all xs T = Returned (hs, T') \<Longrightarrow> sizes_bounded c T \<Longrightarrow> sizes_bounded c T'"
proof (induction xs arbitrary: T hs)
  case Nil
  then show ?case by simp
next
  case (Cons x xs)
  obtain a sp where x: "x = (a, sp)" by (cases x)
  from Cons.prems x obtain h T1 hs1 where
    s: "string_intern a sp T = Returned (h, T1)" and r: "intern_all xs T1 = Returned (hs1, T')"
    by (auto simp add: obind_def split: outcome.splits prod.splits)
  from Cons.IH[OF r string_intern_sizes[OF s Cons.prems(2)]] show ?case .
qed

lemma init_sizes:
  assumes "\<not> table_initialized T0" "string_table_init a0 n T0 = Returned T" "n \<le> 2 ^ 48"
  shows "sizes_bounded (3 * 2 ^ 49) T"
proof -
  let ?n = "if n = 0 then STRING_TABLE_INITIAL_CAPACITY else n"
  from assms obtain r where r: "double_until 1 ?n = Some r"
    and T: "T = T0\<lparr>buckets := replicate r STRING_TABLE_EMPTY, buckets_capacity := r,
                  strings_capacity := 256, strings := [], table_initialized := True\<rparr>"
    by (auto simp add: string_table_init_def Let_def split: option.splits if_splits)
  from double_until_below[OF _ r] have "r < max 2 (2 * ?n)" by simp
  moreover have "?n \<le> 2 ^ 48" using assms(3) by (simp add: STRING_TABLE_INITIAL_CAPACITY_def)
  ultimately have "r < 2 ^ 49" by (auto simp add: max_def split: if_splits)
  then show ?thesis by (simp add: T sizes_bounded_def strings_count_def)
qed

lemma sizes_bounded_below:
  assumes "sizes_bounded (3 * 2 ^ 49) T" "strings_count T \<le> 2 ^ 48"
  shows "buckets_capacity T < 2 ^ 51 \<and> strings_capacity T < 2 ^ 51"
  using assms by (auto simp add: sizes_bounded_def max_def split: if_splits)

lemma init_one: "string_table_init init_ok 1 table_zero = Returned table_one"
  by (simp add: string_table_init_def init_ok_def table_zero_def table_one_def double_until_done)

lemma init_four: "string_table_init init_ok 4 table_zero = Returned table_four"
  by (simp add: string_table_init_def init_ok_def table_zero_def table_four_def
      double_until_done double_until_step)


text \<open>
  Claim C5: within one session, that is from \<open>string_table_init\<close> on a table that was
  not initialised, and for any sequence of calls of \<open>string_intern\<close> that return, with
  any outcome of their allocations (the mutex makes the calls of several threads one
  sequence; the table grows during it as the load factor requires): two calls return the
  same handle if and only if they were given the same content, a call returns the null
  handle only for the null string; and the calls do return when their allocations
  succeed. A handle is the address of the copy the table keeps, modelled by the index
  of its cell in \<open>strings\<close>. The table is asked for at most \<open>2^48\<close> buckets and holds
  at most \<open>2^48\<close> strings; its capacities then stay below \<open>2^51\<close>, where the sizes
  of the source do not wrap, the load factor is compared exactly, and no index of a
  string is the value \<open>STRING_TABLE_EMPTY\<close> that marks an empty bucket.
\<close>

theorem intern_handle_identity:
  assumes "\<not> table_initialized T0" "string_table_init a0 n T0 = Returned T" "n \<le> 2 ^ 48"
  shows "(intern_all xs T = Returned (hs, T') \<and> strings_count T' \<le> 2 ^ 48 \<longrightarrow>
            length hs = length xs
            \<and> (\<forall>i<length xs. \<forall>j<length xs. (hs ! i = hs ! j) \<longleftrightarrow> (snd (xs ! i) = snd (xs ! j)))
            \<and> (\<forall>i<length xs. (hs ! i = None) \<longleftrightarrow> (snd (xs ! i) = None))
            \<and> buckets_capacity T' < 2 ^ 51 \<and> strings_capacity T' < 2 ^ 51)
       \<and> ((\<forall>x\<in>set xs. resize_malloc_ok (fst x) \<and> strings_realloc_ok (fst x) \<and> strdup_ok (fst x))
            \<and> length xs \<le> 2 ^ 48 \<longrightarrow>
            (\<exists>hs T'. intern_all xs T = Returned (hs, T') \<and> strings_count T' \<le> 2 ^ 48))"
proof (intro conjI impI)
  from init_table_inv[OF assms(1,2)] have inv: "table_inv T" and emp: "strings T = []" by simp_all
  have le: "(2::nat) ^ 48 \<le> STRING_TABLE_EMPTY" by (simp add: STRING_TABLE_EMPTY_def SIZE_MAX_def)
  {
    assume a: "intern_all xs T = Returned (hs, T') \<and> strings_count T' \<le> 2 ^ 48"
    with le have b: "strings_count T' \<le> STRING_TABLE_EMPTY" by simp
    from intern_all_inv[OF inv] a b have
      i: "table_inv T'" "length hs = length xs"
        "\<forall>i<length xs. case snd (xs ! i) of None \<Rightarrow> hs ! i = None
              | Some s \<Rightarrow> \<exists>k. hs ! i = Some k \<and> k < length (strings T') \<and> strings T' ! k = s"
      by blast+
    from i(1) have d: "distinct (strings T')" by (simp add: table_inv_def index_inv_def)
    show "length hs = length xs" by (rule i(2))
    show "\<forall>i<length xs. \<forall>j<length xs. (hs ! i = hs ! j) \<longleftrightarrow> (snd (xs ! i) = snd (xs ! j))"
    proof (intro allI impI)
      fix i j assume "i < length xs" "j < length xs"
      with i(3) show "(hs ! i = hs ! j) \<longleftrightarrow> (snd (xs ! i) = snd (xs ! j))"
        by (intro handles_eq_iff[OF d]) auto
    qed
    show "\<forall>i<length xs. (hs ! i = None) \<longleftrightarrow> (snd (xs ! i) = None)"
    proof (intro allI impI)
      fix i assume "i < length xs"
      with i(3) have "case snd (xs ! i) of None \<Rightarrow> hs ! i = None
              | Some s \<Rightarrow> \<exists>k. hs ! i = Some k \<and> k < length (strings T') \<and> strings T' ! k = s"
        by simp
      then show "(hs ! i = None) \<longleftrightarrow> (snd (xs ! i) = None)"
        by (auto split: option.splits)
    qed
    from a have r: "intern_all xs T = Returned (hs, T')" by simp
    from intern_all_sizes[OF r init_sizes[OF assms]] have "sizes_bounded (3 * 2 ^ 49) T'" .
    from sizes_bounded_below[OF this] a
    show "buckets_capacity T' < 2 ^ 51" "strings_capacity T' < 2 ^ 51" by simp_all
  }
  {
    assume a: "(\<forall>x\<in>set xs. resize_malloc_ok (fst x) \<and> strings_realloc_ok (fst x) \<and> strdup_ok (fst x))
            \<and> length xs \<le> 2 ^ 48"
    with le have "strings_count T + length xs \<le> STRING_TABLE_EMPTY"
      using emp by (simp add: strings_count_def)
    from intern_all_total[OF inv this] a
    show "\<exists>hs T'. intern_all xs T = Returned (hs, T') \<and> strings_count T' \<le> 2 ^ 48"
      using emp by (auto simp add: strings_count_def)
  }
qed

theorem intern_handle_identity_witness:
  "\<exists>hs T'. intern_all sample_interns table_one = Returned (hs, T')
      \<and> length hs = 4 \<and> hs ! 0 = hs ! 2 \<and> hs ! 0 \<noteq> hs ! 1 \<and> hs ! 0 \<noteq> None \<and> hs ! 3 = None"
proof -
  have z: "\<not> table_initialized table_zero" by (simp add: table_zero_def)
  have ok: "\<forall>x\<in>set sample_interns. resize_malloc_ok (fst x) \<and> strings_realloc_ok (fst x) \<and> strdup_ok (fst x)"
    "length sample_interns \<le> 2 ^ 48"
    by (simp_all add: sample_interns_def intern_ok_def)
  have n: "(1::nat) \<le> 2 ^ 48" by simp
  from intern_handle_identity[OF z init_one n, of sample_interns] ok obtain hs T' where
    r: "intern_all sample_interns table_one = Returned (hs, T')"
       "strings_count T' \<le> 2 ^ 48" by blast
  from intern_handle_identity[OF z init_one n, of sample_interns hs T'] r have
    p: "length hs = length sample_interns"
       "\<forall>i<length sample_interns. \<forall>j<length sample_interns.
           (hs ! i = hs ! j) \<longleftrightarrow> (snd (sample_interns ! i) = snd (sample_interns ! j))"
       "\<forall>i<length sample_interns. (hs ! i = None) \<longleftrightarrow> (snd (sample_interns ! i) = None)"
    by blast+
  have l: "length sample_interns = 4" by (simp add: sample_interns_def)
  from p(2)[rule_format, of 0 2] p(2)[rule_format, of 0 1] p(3)[rule_format, of 0]
    p(3)[rule_format, of 3] p(1) l r(1)
  show ?thesis by (simp add: sample_interns_def)
qed

text \<open>
  Claim C8: \<open>string_intern\<close> of the null string returns null and leaves the table as it
  is; at any point of a session (a table asked for at most \<open>2^48\<close> buckets that holds
  fewer than \<open>2^48\<close> strings), interning the empty string succeeds when its allocations
  do and returns a handle that is not null, and interning it again returns the same
  handle without changing the table, whatever the allocator would answer.
\<close>

theorem intern_null_and_empty:
  assumes "\<not> table_initialized T0" "string_table_init a0 n T0 = Returned T" "n \<le> 2 ^ 48"
    "intern_all xs T = Returned (hs, T1)" "strings_count T1 < 2 ^ 48"
  shows "string_intern a None T1 = Returned (None, T1)
       \<and> (resize_malloc_ok a \<and> strings_realloc_ok a \<and> strdup_ok a \<longrightarrow>
            (\<exists>h T2. string_intern a (Some '''') T1 = Returned (Some h, T2)
                 \<and> string_intern a' (Some '''') T2 = Returned (Some h, T2)))"
proof (intro conjI impI)
  show "string_intern a None T1 = Returned (None, T1)" by (simp add: string_intern_def)
next
  assume ok: "resize_malloc_ok a \<and> strings_realloc_ok a \<and> strdup_ok a"
  from init_table_inv[OF assms(1,2)] have inv: "table_inv T" by simp
  from assms(5) have lt: "strings_count T1 < STRING_TABLE_EMPTY"
    by (simp add: STRING_TABLE_EMPTY_def SIZE_MAX_def)
  from intern_all_inv[OF inv assms(4)] lt have inv1: "table_inv T1" by simp
  show "\<exists>h T2. string_intern a (Some '''') T1 = Returned (Some h, T2)
                 \<and> string_intern a' (Some '''') T2 = Returned (Some h, T2)"
  proof (cases "'''' \<in> set (strings T1)")
    case True
    from string_intern_found[OF inv1 True, of a] obtain k where
      k: "k < length (strings T1)" "strings T1 ! k = ''''"
        "string_intern a (Some '''') T1 = Returned (Some k, T1)" by blast
    from string_intern_found[OF inv1 True, of a'] obtain k' where
      k': "k' < length (strings T1)" "strings T1 ! k' = ''''"
        "string_intern a' (Some '''') T1 = Returned (Some k', T1)" by blast
    from inv1 have "distinct (strings T1)" by (simp add: table_inv_def index_inv_def)
    from this k(1) k'(1) have "(strings T1 ! k = strings T1 ! k') = (k = k')"
      by (rule nth_eq_iff_index_eq)
    with k(2) k'(2) have "k = k'" by simp
    with k(3) k'(3) show ?thesis by blast
  next
    case False
    from string_intern_new[OF inv1 False lt, of a] ok obtain T2 where
      T2: "table_inv T2" "strings T2 = strings T1 @ ['''']"
        "string_intern a (Some '''') T1 = Returned (Some (strings_count T1), T2)"
      by auto
    have "'''' \<in> set (strings T2)" using T2(2) by simp
    from string_intern_found[OF T2(1) this, of a'] obtain k where
      k: "k < length (strings T2)" "strings T2 ! k = ''''"
        "string_intern a' (Some '''') T2 = Returned (Some k, T2)" by blast
    from T2(1) have d: "distinct (strings T2)" by (simp add: table_inv_def index_inv_def)
    have "strings T2 ! (strings_count T1) = ''''" "strings_count T1 < length (strings T2)"
      using T2(2) by (simp_all add: strings_count_def)
    then have e: "strings T2 ! (strings_count T1) = strings T2 ! k" using k(2) by simp
    from d k(1) \<open>strings_count T1 < length (strings T2)\<close>
    have "(strings T2 ! k = strings T2 ! (strings_count T1)) = (k = strings_count T1)"
      by (rule nth_eq_iff_index_eq)
    with e have "k = strings_count T1" by simp
    with k(3) T2(3) show ?thesis by blast
  qed
qed

theorem intern_null_and_empty_witness:
  "string_intern intern_ok None table_four = Returned (None, table_four)
   \<and> (\<exists>h T2. string_intern intern_ok (Some '''') table_four = Returned (Some h, T2)
               \<and> string_intern intern_no_alloc (Some '''') T2 = Returned (Some h, T2))"
proof -
  have z: "\<not> table_initialized table_zero" by (simp add: table_zero_def)
  have r: "intern_all [] table_four = Returned ([], table_four)" by simp
  have c: "strings_count table_four < 2 ^ 48"
    by (simp add: strings_count_def table_four_def table_zero_def)
  have n: "(4::nat) \<le> 2 ^ 48" by simp
  have ok: "resize_malloc_ok intern_ok \<and> strings_realloc_ok intern_ok \<and> strdup_ok intern_ok"
    by (simp add: intern_ok_def)
  from intern_null_and_empty[OF z init_four n r c, of intern_ok intern_no_alloc] ok show ?thesis by blast
qed

section \<open>Properties of the barrier under threads\<close>

lemmas conc_defs = step_def advance_def invoke_def set_thread_def returns_def
  load_stopping_def load_active_def load_acquire_def store_stopping_def fetch_add_active_def
  mutex_lock_def mutex_unlock_def view_join_def view_zero_def thread_zero_def process_start_def
  observe_def latest_of_def Let_def

text \<open>
  Claim C2: for every interleaving of producer threads and one stopping thread, once the
  stopping flag is set every later \<open>barrier_try_enter\<close> returns false, and
  \<open>barrier_stop\<close> never returns \<open>STOP_OK\<close> while a thread is inside a protected section.
  With the memory orders of \<open>barrier.c\<close> the second part fails. In \<open>overlap_schedule\<close>
  thread 1 passes line 105 before thread 0 stores the flag; thread 0 stores it and reads
  the counter as 0 at line 192; thread 1 increments the counter, and its acquire load of
  line 117 still reads \<open>false\<close>, since nothing orders the release store of thread 0
  before that load (on x86 the store is a plain move that waits in the store buffer of
  thread 0 while its next load runs). Thread 1 returns true and thread 0 returns
  \<open>STOP_OK\<close>: the stop is complete while thread 1 is inside its section, with
  \<open>tl_callback_depth = 1\<close>.
\<close>

theorem stop_overlaps_section:
  "map_option observe (run overlap_schedule (process_start 2))
   = Some [(Outside, 0, Some (Ret_stop STOP_OK)), (Outside, 1, Some (Ret_bool True))]"
  by (simp add: overlap_schedule_def conc_defs numeral_2_eq_2)

text \<open>
  That run is not sequentially consistent; had the load of line 117 read the last store,
  thread 1 would have taken its increment back and returned false.
\<close>

lemma overlap_not_sc: "\<not> sequentially_consistent overlap_schedule (process_start 2)"
  by (simp add: overlap_schedule_def conc_defs numeral_2_eq_2)

lemma latest_store_backs_out:
  "map_option observe (run backout_schedule (process_start 2))
   = Some [(Outside, 0, Some (Ret_stop STOP_OK)), (Outside, 0, Some (Ret_bool False))]
   \<and> sequentially_consistent backout_schedule (process_start 2)"
  by (simp add: backout_schedule_def conc_defs numeral_2_eq_2)

text \<open>
  In the sequentially consistent runs with one call of \<open>barrier_stop\<close> the barrier does
  what the claim says.
\<close>

lemma sum_list_map_update:
  "i < length ts \<Longrightarrow>
   sum_list (map f (ts[i := t])) = sum_list (map f ts) - f (ts ! i) + (f t :: int)"
proof (induction ts arbitrary: i)
  case Nil then show ?case by simp
next
  case (Cons a ts) then show ?case by (cases i) simp_all
qed

lemma sum_list_nonneg_zero:
  "\<forall>t\<in>set ts. 0 \<le> (f t :: int) \<Longrightarrow> sum_list (map f ts) \<le> 0 \<Longrightarrow> \<forall>t\<in>set ts. f t = 0"
proof (induction ts)
  case Nil then show ?case by simp
next
  case (Cons a ts)
  have "0 \<le> sum_list (map f ts)" using Cons.prems(1) by (intro sum_list_nonneg) auto
  with Cons show ?case by auto
qed

lemma load_stopping_latest:
  assumes "g_stopping s \<noteq> []"
    "load_stopping (length (g_stopping s) - Suc 0) t s = Some (v, t1)"
  shows "v = stopping_now s \<and> th_pc t1 = th_pc t \<and> th_depth t1 = th_depth t
       \<and> th_returned t1 = th_returned t"
  using assms
  by (auto simp add: load_stopping_def load_acquire_def stopping_now_def last_conv_nth
      split: if_splits)

lemma load_active_latest:
  assumes "g_active_callbacks s \<noteq> []"
    "load_active (length (g_active_callbacks s) - Suc 0) t s = Some (v, t1)"
  shows "v = count_now s \<and> th_pc t1 = th_pc t \<and> th_depth t1 = th_depth t
       \<and> th_returned t1 = th_returned t"
  using assms
  by (auto simp add: load_active_def load_acquire_def count_now_def last_conv_nth
      split: if_splits)

lemma fetch_add_active_effect:
  assumes "fetch_add_active d t s = (prev, t1, s1)"
  shows "prev = count_now s \<and> count_now s1 = count_now s + d \<and> stopping_now s1 = stopping_now s
       \<and> g_stopping s1 = g_stopping s \<and> g_active_callbacks s1 \<noteq> []
       \<and> threads s1 = threads s \<and> g_initialized s1 = g_initialized s
       \<and> g_aborted s1 = g_aborted s
       \<and> th_pc t1 = th_pc t \<and> th_depth t1 = th_depth t \<and> th_returned t1 = th_returned t"
  using assms
  by (auto simp add: fetch_add_active_def count_now_def stopping_now_def Let_def)

lemma store_stopping_effect:
  assumes "store_stopping v t s = (t1, s1)"
  shows "stopping_now s1 = v \<and> count_now s1 = count_now s
       \<and> g_stopping s1 \<noteq> [] \<and> g_active_callbacks s1 = g_active_callbacks s
       \<and> threads s1 = threads s \<and> g_initialized s1 = g_initialized s
       \<and> g_aborted s1 = g_aborted s
       \<and> th_pc t1 = th_pc t \<and> th_depth t1 = th_depth t \<and> th_returned t1 = th_returned t"
  using assms
  by (auto simp add: store_stopping_def count_now_def stopping_now_def Let_def)

lemma mutex_lock_effect:
  assumes "mutex_lock i t s = Some (t1, s1)"
  shows "stopping_now s1 = stopping_now s \<and> count_now s1 = count_now s
       \<and> g_stopping s1 = g_stopping s \<and> g_active_callbacks s1 = g_active_callbacks s
       \<and> threads s1 = threads s \<and> g_initialized s1 = g_initialized s
       \<and> g_aborted s1 = g_aborted s
       \<and> th_pc t1 = th_pc t \<and> th_depth t1 = th_depth t \<and> th_returned t1 = th_returned t"
  using assms
  by (auto simp add: mutex_lock_def count_now_def stopping_now_def split: if_splits)

lemma mutex_unlock_effect:
  "stopping_now (mutex_unlock t s) = stopping_now s \<and> count_now (mutex_unlock t s) = count_now s
   \<and> g_stopping (mutex_unlock t s) = g_stopping s
   \<and> g_active_callbacks (mutex_unlock t s) = g_active_callbacks s
   \<and> threads (mutex_unlock t s) = threads s \<and> g_initialized (mutex_unlock t s) = g_initialized s
   \<and> g_aborted (mutex_unlock t s) = g_aborted s"
  by (simp add: mutex_unlock_def count_now_def stopping_now_def)

lemma advance_sc:
  assumes ne: "g_stopping s \<noteq> []" "g_active_callbacks s \<noteq> []"
    and a: "advance i (latest_of t s) t s = Some (t', s')"
  shows "sc_effect t s t' s' \<and> threads s' = threads s \<and> g_initialized s' = g_initialized s
       \<and> g_aborted s' = g_aborted s \<and> g_stopping s' \<noteq> [] \<and> g_active_callbacks s' \<noteq> []"
proof (cases "th_pc t")
  case Outside with a show ?thesis by (simp add: advance_def)
next
  case L105
  with a ne show ?thesis
    by (auto simp add: advance_def latest_of_def sc_effect_def returns_def
        split: option.splits if_splits dest!: load_stopping_latest[OF ne(1)])
next
  case L110
  with a ne show ?thesis
    by (auto simp add: advance_def latest_of_def sc_effect_def returns_def
        split: prod.splits dest!: fetch_add_active_effect)
next
  case L117
  with a ne show ?thesis
    by (auto simp add: advance_def latest_of_def sc_effect_def returns_def
        split: option.splits if_splits dest!: load_stopping_latest[OF ne(1)])
next
  case L118
  with a ne show ?thesis
    by (auto simp add: advance_def latest_of_def sc_effect_def returns_def
        split: prod.splits dest!: fetch_add_active_effect)
next
  case L153
  with a ne show ?thesis
    by (auto simp add: advance_def latest_of_def sc_effect_def returns_def
        split: prod.splits if_splits dest!: fetch_add_active_effect)
next
  case L157
  with a ne show ?thesis
    by (auto simp add: advance_def latest_of_def sc_effect_def returns_def
        split: option.splits if_splits dest!: load_stopping_latest[OF ne(1)])
next
  case L180
  with a ne show ?thesis
    by (auto simp add: advance_def latest_of_def sc_effect_def returns_def
        split: option.splits dest!: mutex_lock_effect)
next
  case L183
  with a ne show ?thesis
    by (auto simp add: advance_def latest_of_def sc_effect_def returns_def
        split: option.splits if_splits dest!: load_stopping_latest[OF ne(1)])
next
  case L184
  with a ne show ?thesis
    by (auto simp add: advance_def latest_of_def sc_effect_def returns_def mutex_unlock_effect)
next
  case L189
  with a ne show ?thesis
    by (auto simp add: advance_def latest_of_def sc_effect_def returns_def
        split: prod.splits dest!: store_stopping_effect)
next
  case L192
  with a ne show ?thesis
    by (auto simp add: advance_def latest_of_def sc_effect_def returns_def
        split: option.splits if_splits dest!: load_active_latest[OF ne(2)])
next
  case L193
  with a ne show ?thesis
    by (auto simp add: advance_def latest_of_def sc_effect_def returns_def mutex_unlock_effect)
next
  case L193_wake
  with a ne show ?thesis
    by (auto simp add: advance_def latest_of_def sc_effect_def returns_def
        split: option.splits dest!: mutex_lock_effect)
next
  case L197
  with a ne show ?thesis
    by (auto simp add: advance_def latest_of_def sc_effect_def returns_def mutex_unlock_effect)
qed

lemma step_advance:
  assumes "step (Advance i c) s = Some s'"
  obtains t' s1 where "i < length (threads s)" "advance i c (threads s ! i) s = Some (t', s1)"
    "s' = set_thread i t' s1"
  using assms by (auto simp add: step_def split: if_splits option.splits)

lemma set_thread_simps:
  "threads (set_thread i t s) = (threads s)[i := t]"
  "stopping_now (set_thread i t s) = stopping_now s"
  "count_now (set_thread i t s) = count_now s"
  "g_initialized (set_thread i t s) = g_initialized s"
  "g_stopping (set_thread i t s) = g_stopping s"
  "g_active_callbacks (set_thread i t s) = g_active_callbacks s"
  by (simp_all add: set_thread_def stopping_now_def count_now_def)

lemma all_counted_zero:
  assumes "\<forall>j<length ts. 0 \<le> th_depth (ts ! j)" "sum_list (map counted ts) \<le> 0" "k < length ts"
  shows "th_depth (ts ! k) = 0 \<and> th_pc (ts ! k) \<notin> {L117, L118, L153}"
proof -
  have "\<forall>t\<in>set ts. 0 \<le> counted t"
    using assms(1) by (auto simp add: counted_def in_set_conv_nth)
  from sum_list_nonneg_zero[OF this assms(2)] assms(3) have z: "counted (ts ! k) = 0" by simp
  from assms(1,3) have "0 \<le> th_depth (ts ! k)" by simp
  with z show ?thesis by (auto simp add: counted_def split: if_splits)
qed

lemma advance_preserves:
  assumes inv: "sc_inv s" and i: "i < length (threads s)"
    and a: "advance i (latest_of (threads s ! i) s) (threads s ! i) s = Some (t', s1)"
  shows "sc_inv (set_thread i t' s1)"
proof -
  let ?t = "threads s ! i"
  from inv have ne: "g_stopping s \<noteq> []" "g_active_callbacks s \<noteq> []" by (simp_all add: sc_inv_def)
  from advance_sc[OF ne a] have e: "sc_effect ?t s t' s1" and th: "threads s1 = threads s"
    and g: "g_initialized s1 = g_initialized s" "g_stopping s1 \<noteq> []" "g_active_callbacks s1 \<noteq> []"
    by simp_all
  show ?thesis
  proof (cases "th_pc ?t")
    case Outside with e show ?thesis by (simp add: sc_effect_def)
  next
    case L105
    with e inv i th g show ?thesis
      unfolding sc_inv_def sc_effect_def
      by (auto simp add: set_thread_simps nth_list_update sum_list_map_update counted_def
          in_stop_def stop_passed_def split: if_splits)
  next
    case L110
    with e inv i th g show ?thesis
      unfolding sc_inv_def sc_effect_def
      by (auto simp add: set_thread_simps nth_list_update sum_list_map_update counted_def
          in_stop_def stop_passed_def split: if_splits)
  next
    case L117
    with e inv i th g show ?thesis
      unfolding sc_inv_def sc_effect_def
      by (auto simp add: set_thread_simps nth_list_update sum_list_map_update counted_def
          in_stop_def stop_passed_def split: if_splits)
  next
    case L118
    with e inv i th g show ?thesis
      unfolding sc_inv_def sc_effect_def
      by (auto simp add: set_thread_simps nth_list_update sum_list_map_update counted_def
          in_stop_def stop_passed_def split: if_splits)
  next
    case L153
    with e inv i th g show ?thesis
      unfolding sc_inv_def sc_effect_def
      by (auto simp add: set_thread_simps nth_list_update sum_list_map_update counted_def
          in_stop_def stop_passed_def split: if_splits)
  next
    case L157
    with e inv i th g show ?thesis
      unfolding sc_inv_def sc_effect_def
      by (auto simp add: set_thread_simps nth_list_update sum_list_map_update counted_def
          in_stop_def stop_passed_def split: if_splits)
  next
    case L180
    with e inv i th g show ?thesis
      unfolding sc_inv_def sc_effect_def
      by (auto simp add: set_thread_simps nth_list_update sum_list_map_update counted_def
          in_stop_def stop_passed_def split: if_splits)
  next
    case L183
    with e inv i th g show ?thesis
      unfolding sc_inv_def sc_effect_def
      by (auto simp add: set_thread_simps nth_list_update sum_list_map_update counted_def
          in_stop_def stop_passed_def split: if_splits)
  next
    case L184
    with inv i show ?thesis by (simp add: sc_inv_def)
  next
    case L189
    with e inv i th g show ?thesis
      unfolding sc_inv_def sc_effect_def
      by (auto simp add: set_thread_simps nth_list_update sum_list_map_update counted_def
          in_stop_def stop_passed_def split: if_splits)
  next
    case L192
    show ?thesis
    proof (cases "count_now s > 0")
      case True
      with L192 e inv i th g show ?thesis
        unfolding sc_inv_def sc_effect_def
        by (auto simp add: set_thread_simps nth_list_update sum_list_map_update counted_def
            in_stop_def stop_passed_def split: if_splits)
    next
      case False
      from inv have d: "\<forall>j<length (threads s). 0 \<le> th_depth (threads s ! j)"
        and c: "count_now s = sum_list (map counted (threads s))" by (simp_all add: sc_inv_def)
      from False c have "sum_list (map counted (threads s)) \<le> 0" by simp
      from all_counted_zero[OF d this]
      have z: "\<forall>k<length (threads s). th_depth (threads s ! k) = 0" by simp
      with False L192 e inv i th g show ?thesis
        unfolding sc_inv_def sc_effect_def
        by (auto simp add: set_thread_simps nth_list_update sum_list_map_update counted_def
            in_stop_def stop_passed_def split: if_splits)
    qed
  next
    case L193
    with e inv i th g show ?thesis
      unfolding sc_inv_def sc_effect_def
      by (auto simp add: set_thread_simps nth_list_update sum_list_map_update counted_def
          in_stop_def stop_passed_def split: if_splits)
  next
    case L193_wake
    with e inv i th g show ?thesis
      unfolding sc_inv_def sc_effect_def
      by (auto simp add: set_thread_simps nth_list_update sum_list_map_update counted_def
          in_stop_def stop_passed_def split: if_splits)
  next
    case L197
    with e inv i th g show ?thesis
      unfolding sc_inv_def sc_effect_def
      by (auto simp add: set_thread_simps nth_list_update sum_list_map_update counted_def
          in_stop_def stop_passed_def split: if_splits)
  qed
qed

lemma step_invoke:
  assumes "step (Invoke i f) s = Some s'"
  shows "i < length (threads s) \<and> th_pc (threads s ! i) = Outside
       \<and> (case invoke f (threads s ! i) (g_initialized s) of
             None \<Rightarrow> s' = s\<lparr>g_aborted := True\<rparr>
           | Some t \<Rightarrow> s' = set_thread i t s)"
  using assms by (auto simp add: step_def split: if_splits option.splits)

lemma aborted_simps:
  "threads (s\<lparr>g_aborted := b\<rparr>) = threads s"
  "stopping_now (s\<lparr>g_aborted := b\<rparr>) = stopping_now s"
  "count_now (s\<lparr>g_aborted := b\<rparr>) = count_now s"
  by (simp_all add: stopping_now_def count_now_def)

lemma invoke_preserves:
  assumes inv: "sc_inv s" and st: "step (Invoke i f) s = Some s'" and f: "f \<noteq> Api_stop"
  shows "sc_inv s'"
proof (cases f)
  case Api_try_enter
  with step_invoke[OF st] inv show ?thesis
    unfolding sc_inv_def
    by (auto simp add: invoke_def set_thread_simps nth_list_update sum_list_map_update counted_def
        in_stop_def stop_passed_def returns_def split: if_splits)
next
  case Api_leave
  show ?thesis
  proof (cases "th_depth (threads s ! i) > 0")
    case False
    with Api_leave step_invoke[OF st] inv have "s' = s\<lparr>g_aborted := True\<rparr>"
      by (simp add: invoke_def sc_inv_def)
    with inv show ?thesis by (simp add: sc_inv_def aborted_simps)
  next
    case True
    with Api_leave step_invoke[OF st] inv show ?thesis
      unfolding sc_inv_def
      by (auto simp add: invoke_def set_thread_simps nth_list_update sum_list_map_update
          counted_def in_stop_def stop_passed_def returns_def split: if_splits)
  qed
next
  case Api_stop with f show ?thesis by simp
qed

lemma invoke_stop_preserves:
  assumes inv: "sc_inv s" and pre: "not_stopping_yet s" and st: "step (Invoke i Api_stop) s = Some s'"
  shows "sc_inv s'"
  using step_invoke[OF st] inv pre
  unfolding sc_inv_def not_stopping_yet_def
  by (auto simp add: invoke_def set_thread_simps nth_list_update sum_list_map_update counted_def
      in_stop_def stop_passed_def returns_def split: if_splits)

lemma invoke_not_stopping_yet:
  assumes pre: "not_stopping_yet s" and st: "step (Invoke i f) s = Some s'" and f: "f \<noteq> Api_stop"
  shows "not_stopping_yet s'"
  using step_invoke[OF st] pre f
  unfolding not_stopping_yet_def
  by (cases f)
     (auto simp add: invoke_def set_thread_simps aborted_simps nth_list_update in_stop_def
        returns_def split: if_splits)

lemma advance_not_stopping_yet:
  assumes inv: "sc_inv s" and pre: "not_stopping_yet s" and i: "i < length (threads s)"
    and a: "advance i (latest_of (threads s ! i) s) (threads s ! i) s = Some (t', s1)"
  shows "not_stopping_yet (set_thread i t' s1)"
proof -
  let ?t = "threads s ! i"
  from inv have ne: "g_stopping s \<noteq> []" "g_active_callbacks s \<noteq> []" by (simp_all add: sc_inv_def)
  from advance_sc[OF ne a] have e: "sc_effect ?t s t' s1" and th: "threads s1 = threads s"
    by simp_all
  from pre i have n: "\<not> in_stop ?t" by (simp add: not_stopping_yet_def)
  from e n pre i th show ?thesis
    unfolding not_stopping_yet_def sc_effect_def
    by (cases "th_pc ?t")
       (auto simp add: set_thread_simps nth_list_update in_stop_def split: if_splits)
qed

lemma stop_invocations_Cons:
  "stop_invocations (a # as) = (if is_stop a then 1 else 0) + stop_invocations as"
  by (simp add: stop_invocations_def)

lemma step_preserves:
  assumes inv: "sc_inv s" and st: "step a s = Some s'" and n: "\<not> is_stop a"
    and sc: "case a of Invoke i f \<Rightarrow> True
             | Advance i c \<Rightarrow> i < length (threads s) \<longrightarrow> c = latest_of (threads s ! i) s"
  shows "sc_inv s'" "not_stopping_yet s \<Longrightarrow> not_stopping_yet s'"
proof -
  show "sc_inv s'"
  proof (cases a)
    case (Invoke i f)
    with n have "f \<noteq> Api_stop" by (simp add: is_stop_def)
    from invoke_preserves[OF inv _ this] st Invoke show ?thesis by simp
  next
    case (Advance i c)
    from st Advance have "step (Advance i c) s = Some s'" by simp
    then show ?thesis
    proof (rule step_advance)
      fix t' s1 assume i: "i < length (threads s)"
        and a: "advance i c (threads s ! i) s = Some (t', s1)" and s': "s' = set_thread i t' s1"
      from sc Advance i have "c = latest_of (threads s ! i) s" by simp
      with a advance_preserves[OF inv i] s' show ?thesis by simp
    qed
  qed
  assume pre: "not_stopping_yet s"
  show "not_stopping_yet s'"
  proof (cases a)
    case (Invoke i f)
    with n have "f \<noteq> Api_stop" by (simp add: is_stop_def)
    from invoke_not_stopping_yet[OF pre _ this] st Invoke show ?thesis by simp
  next
    case (Advance i c)
    from st Advance have "step (Advance i c) s = Some s'" by simp
    then show ?thesis
    proof (rule step_advance)
      fix t' s1 assume i: "i < length (threads s)"
        and a: "advance i c (threads s ! i) s = Some (t', s1)" and s': "s' = set_thread i t' s1"
      from sc Advance i have "c = latest_of (threads s ! i) s" by simp
      with a advance_not_stopping_yet[OF inv pre i] s' show ?thesis by simp
    qed
  qed
qed

lemma run_after_stop:
  "sc_inv s \<Longrightarrow> stop_invocations as = 0 \<Longrightarrow> sequentially_consistent as s \<Longrightarrow>
   run as s = Some s' \<Longrightarrow> sc_inv s'"
proof (induction as arbitrary: s)
  case Nil then show ?case by simp
next
  case (Cons a as)
  from Cons.prems(4) obtain s1 where s1: "step a s = Some s1" "run as s1 = Some s'"
    by (auto split: option.splits)
  from Cons.prems(2) have n: "\<not> is_stop a" "stop_invocations as = 0"
    by (simp_all add: stop_invocations_Cons split: if_splits)
  from Cons.prems(3) s1 have sc: "case a of Invoke i f \<Rightarrow> True
      | Advance i c \<Rightarrow> i < length (threads s) \<longrightarrow> c = latest_of (threads s ! i) s"
    "sequentially_consistent as s1" by simp_all
  from step_preserves(1)[OF Cons.prems(1) s1(1) n(1) sc(1)] have "sc_inv s1" .
  from Cons.IH[OF this n(2) sc(2) s1(2)] show ?case .
qed

lemma run_one_stop:
  "sc_inv s \<Longrightarrow> not_stopping_yet s \<Longrightarrow> stop_invocations as \<le> 1 \<Longrightarrow>
   sequentially_consistent as s \<Longrightarrow> run as s = Some s' \<Longrightarrow> sc_inv s'"
proof (induction as arbitrary: s)
  case Nil then show ?case by simp
next
  case (Cons a as)
  from Cons.prems(5) obtain s1 where s1: "step a s = Some s1" "run as s1 = Some s'"
    by (auto split: option.splits)
  from Cons.prems(4) s1 have sc: "case a of Invoke i f \<Rightarrow> True
      | Advance i c \<Rightarrow> i < length (threads s) \<longrightarrow> c = latest_of (threads s ! i) s"
    "sequentially_consistent as s1" by simp_all
  show ?case
  proof (cases "is_stop a")
    case True
    then obtain i where a: "a = Invoke i Api_stop"
      by (auto simp add: is_stop_def split: action.splits)
    from True Cons.prems(3) have z: "stop_invocations as = 0"
      by (simp add: stop_invocations_Cons)
    from invoke_stop_preserves[OF Cons.prems(1,2)] s1(1) a have "sc_inv s1" by simp
    from run_after_stop[OF this z sc(2) s1(2)] show ?thesis .
  next
    case False
    with Cons.prems(3) have le: "stop_invocations as \<le> 1" by (simp add: stop_invocations_Cons)
    from step_preserves[OF Cons.prems(1) s1(1) False sc(1)] Cons.prems(2)
    have "sc_inv s1" "not_stopping_yet s1" by simp_all
    from Cons.IH[OF this le sc(2) s1(2)] show ?thesis .
  qed
qed

lemma process_start_inv: "sc_inv (process_start n) \<and> not_stopping_yet (process_start n)"
  by (simp add: sc_inv_def not_stopping_yet_def process_start_def thread_zero_def
      stopping_now_def count_now_def counted_def in_stop_def stop_passed_def
      sum_list_replicate)

lemma step_length: "step a s = Some s' \<Longrightarrow> length (threads s') = length (threads s)"
proof (cases a)
  case (Invoke i f)
  assume "step a s = Some s'"
  with Invoke step_invoke[of i f s s'] show ?thesis
    by (auto simp add: set_thread_simps split: option.splits)
next
  case (Advance i c)
  assume "step a s = Some s'"
  with Advance have "step (Advance i c) s = Some s'" by simp
  then show ?thesis
  proof (rule step_advance)
    fix t' s1 assume a: "advance i c (threads s ! i) s = Some (t', s1)" and s': "s' = set_thread i t' s1"
    from a have "threads s1 = threads s"
      by (auto simp add: advance_def returns_def mutex_unlock_def
          load_stopping_def load_active_def fetch_add_active_def store_stopping_def mutex_lock_def
          Let_def split: pc.splits option.splits if_splits prod.splits)
    with s' show ?thesis by (simp add: set_thread_simps)
  qed
qed

lemma run_length: "run as s = Some s' \<Longrightarrow> length (threads s') = length (threads s)"
  by (induction as arbitrary: s) (auto split: option.splits dest: step_length)

lemma stop_safe_if_sequentially_consistent:
  assumes "sequentially_consistent as (process_start n)" "stop_invocations as \<le> 1"
    "run as (process_start n) = Some s"
    "i < n" "th_returned (threads s ! i) = Some (Ret_stop STOP_OK)" "j < n"
  shows "th_depth (threads s ! j) = 0 \<and> stopping_now s"
proof -
  from process_start_inv have "sc_inv (process_start n)" "not_stopping_yet (process_start n)"
    by simp_all
  from run_one_stop[OF this assms(2,1,3)] have inv: "sc_inv s" .
  from run_length[OF assms(3)] have l: "length (threads s) = n" by (simp add: process_start_def)
  from assms(5) have "stop_passed (threads s ! i)" by (simp add: stop_passed_def)
  with inv assms(4,6) l show ?thesis by (simp add: sc_inv_def)
qed

lemma try_enter_refused_if_sequentially_consistent:
  assumes "stopping_now s" "g_stopping s \<noteq> []" "i < length (threads s)"
    "th_pc (threads s ! i) = L105"
    "step (Advance i (latest_of (threads s ! i) s)) s = Some s'"
  shows "th_returned (threads s' ! i) = Some (Ret_bool False) \<and> th_pc (threads s' ! i) = Outside
       \<and> th_depth (threads s' ! i) = th_depth (threads s ! i)"
  using assms
  by (auto simp add: step_def advance_def latest_of_def returns_def set_thread_simps
      split: option.splits if_splits dest!: load_stopping_latest)

lemma stop_safe_drain:
  "\<forall>j<2. th_depth (threads (the (run drain_schedule (process_start 2))) ! j) = 0"
proof -
  have r: "run drain_schedule (process_start 2) = Some (the (run drain_schedule (process_start 2)))"
    by (simp add: drain_schedule_def conc_defs numeral_2_eq_2)
  have sc: "sequentially_consistent drain_schedule (process_start 2)"
    by (simp add: drain_schedule_def conc_defs numeral_2_eq_2)
  have n: "stop_invocations drain_schedule \<le> 1"
    by (simp add: drain_schedule_def stop_invocations_def is_stop_def)
  have ok: "th_returned (threads (the (run drain_schedule (process_start 2))) ! 0)
            = Some (Ret_stop STOP_OK)"
    by (simp add: drain_schedule_def conc_defs numeral_2_eq_2)
  from stop_safe_if_sequentially_consistent[OF sc n r _ ok] show ?thesis by simp
qed

end
